theory Spec2Isabelle
  imports Main "HOL-Library.AList"
begin

section \<open>The debug configuration manager of the Arduino IDE\<close>

text \<open>
  A shallow embedding of \<^verbatim>\<open>debug-configuration-manager.ts\<close>: the read of the temporary
  \<^verbatim>\<open>launch.json\<close> (\<^verbatim>\<open>getTempLaunchJsonContent\<close>), the reconciliation of the model map
  against the workspace roots (the body of \<^verbatim>\<open>updateModels\<close>) and the file-change listener
  installed by \<^verbatim>\<open>doInit\<close>.

  The manager talks to injected services through \<^verbatim>\<open>await\<close>. What a service answers may
  differ from one call to the next, so the services are a function of the number of the
  \<^verbatim>\<open>getTempLaunchJsonContent\<close> invocation: invocation \<open>n\<close> sees \<open>E n\<close>. Everything the
  manager changes or emits is a field of the record \<open>manager\<close>, passed in and returned.
  The timer of \<^verbatim>\<open>p-debounce\<close> around \<^verbatim>\<open>updateModels\<close> is not part of the embedding: the
  definitions below are the function that the timer eventually calls. That function is
  given twice: as one function from its start to its end (\<open>updateModels\<close>), and in steps
  that other passes can come between (\<open>start\<close>, \<open>resume\<close>, \<open>schedule\<close>).
\<close>

subsection \<open>Values\<close>

text \<open>The result kinds of a failed file operation (\<^verbatim>\<open>FileOperationResult\<close> of the file service).\<close>

datatype FileOperationResult =
    FILE_IS_DIRECTORY
  | FILE_NOT_FOUND
  | FILE_NOT_MODIFIED_SINCE
  | FILE_MODIFIED_SINCE
  | FILE_MOVE_CONFLICT
  | FILE_READ_ONLY
  | FILE_PERMISSION_DENIED
  | FILE_TOO_LARGE
  | FILE_INVALID_PATH
  | FILE_EXCEEDS_MEMORY_LIMIT
  | FILE_NOT_DIRECTORY
  | FILE_OTHER_ERROR

text \<open>
  A thrown value: a \<^verbatim>\<open>FileOperationError\<close> with its result kind, or anything else
  (a \<^verbatim>\<open>SyntaxError\<close> of \<^verbatim>\<open>JSON.parse\<close>, a \<^verbatim>\<open>TypeError\<close>, ...) with its message.
\<close>

datatype thrown = FileOperationError FileOperationResult | OtherError string

text \<open>
  The test of the \<^verbatim>\<open>catch\<close> block:
  \<^verbatim>\<open>err instanceof FileOperationError && err.fileOperationResult === FileOperationResult.FILE_NOT_FOUND\<close>.
\<close>

fun isFileNotFound :: "thrown \<Rightarrow> bool" where
  "isFileNotFound (FileOperationError r) = (r = FILE_NOT_FOUND)"
| "isFileNotFound (OtherError m) = False"

text \<open>
  A URI, reduced to the segments of its path. \<open>base\<close> is \<^verbatim>\<open>uri.path.base\<close>, \<open>parent\<close> is
  \<^verbatim>\<open>uri.parent\<close> (the root is its own parent), \<open>resolve\<close> is \<^verbatim>\<open>uri.resolve(name)\<close> and
  \<open>toString\<close> is \<^verbatim>\<open>uri.toString()\<close>.
\<close>

datatype URI = URI (segments: "string list")

definition base :: "URI \<Rightarrow> string" where
  "base u = (if segments u = [] then [] else last (segments u))"

definition parent :: "URI \<Rightarrow> URI" where
  "parent u = URI (butlast (segments u))"

definition resolve :: "URI \<Rightarrow> string \<Rightarrow> URI" where
  "resolve u name = URI (segments u @ [name])"

definition toString :: "URI \<Rightarrow> string" where
  "toString u = ''file://'' @ concat (map (\<lambda>s. ''/'' @ s) (segments u))"

text \<open>\<^verbatim>\<open>String.prototype.toLowerCase\<close> on the ASCII letters; every other character is kept.\<close>

definition toLowerChar :: "char \<Rightarrow> char" where
  "toLowerChar c =
     (let n = (of_char c :: nat) in if 65 \<le> n \<and> n \<le> 90 then char_of (n + 32) else c)"

definition toLowerCase :: "string \<Rightarrow> string" where
  "toLowerCase s = map toLowerChar s"

text \<open>A launch entry is opaque here: it is known by its name.\<close>

datatype DebugConfiguration = DebugConfiguration (name: string)

text \<open>
  The three results of \<^verbatim>\<open>getTempLaunchJsonContent\<close>: \<^verbatim>\<open>undefined\<close> is \<open>None\<close>, the
  URI of the temp folder (no \<^verbatim>\<open>launch.json\<close> yet) is \<open>TempFolder\<close>, and the object
  \<^verbatim>\<open>{ uri, configurations, compounds }\<close> is \<open>JsonContent\<close>.
\<close>

datatype tempContent =
    JsonContent (uri: URI) (configurations: "DebugConfiguration list")
                (compounds: "DebugConfiguration list")
  | TempFolder URI

text \<open>
  The services as one invocation finds them. \<open>currentSketch\<close> is \<open>None\<close> when
  \<^verbatim>\<open>CurrentSketch.isValid\<close> fails; \<open>createFolder\<close> answers the thrown value when it
  rejects; \<open>read\<close> answers the text of the file or the thrown value; \<open>parse\<close> is
  \<^verbatim>\<open>DebugConfigurationModel.parse(JSON.parse(value))\<close>, which may throw.
  \<^verbatim>\<open>currentSketch\<close> and \<^verbatim>\<open>getIdeTempFolderUri\<close> are taken not to reject.
\<close>

record services =
  currentSketch :: "string option"
  getIdeTempFolderUri :: "string \<Rightarrow> URI"
  createFolder :: "URI \<Rightarrow> thrown option"
  read :: "URI \<Rightarrow> thrown + string"
  parse :: "string \<Rightarrow> thrown + DebugConfiguration list"

text \<open>
  What \<^verbatim>\<open>new DebugConfigurationModel(key, preferences, configurations, uri, ...)\<close> is given,
  with the listeners that \<^verbatim>\<open>updateModels\<close> attaches: \<open>onDispose\<close> lists the keys that the
  disposal listeners delete from the model map, \<open>onDidChange\<close> counts the listeners that
  call \<^verbatim>\<open>updateCurrent\<close>.
\<close>

record DebugConfigurationModel =
  workspaceFolderUri :: string
  config :: "DebugConfiguration list"
  configUri :: "URI option"
  onDidChange :: nat
  onDispose :: "string list"

datatype fileServiceCall = CreateFolder URI | Read URI | Watch URI

text \<open>
  The manager and what it has emitted so far. \<open>models\<close> is the \<^verbatim>\<open>Map\<close> of the base class
  in insertion order; \<open>fired\<close> are the values given to \<^verbatim>\<open>onTempContentDidChangeEmitter.fire\<close>;
  \<open>updateCurrentCalls\<close> counts the calls of \<^verbatim>\<open>updateCurrent\<close>; \<open>console\<close> are the calls of
  \<^verbatim>\<open>console.error\<close>; \<open>fileService\<close> are the calls of the file service in order; \<open>disposed\<close>
  are the keys of the models disposed; \<open>invocations\<close> counts the calls of
  \<^verbatim>\<open>getTempLaunchJsonContent\<close>; \<open>listener\<close> is the \<^verbatim>\<open>tempFolderName\<close> of the installed
  file-change listener; \<open>triggers\<close> counts the calls of the debounced \<^verbatim>\<open>updateModels\<close>.
\<close>

record manager =
  models :: "(string \<times> DebugConfigurationModel) list"
  fired :: "tempContent list"
  updateCurrentCalls :: nat
  console :: "(string \<times> thrown) list"
  fileService :: "fileServiceCall list"
  disposed :: "string list"
  invocations :: nat
  listener :: "string option"
  triggers :: nat

definition initial :: manager where
  "initial = \<lparr> models = [], fired = [], updateCurrentCalls = 0, console = [],
               fileService = [], disposed = [], invocations = 0, listener = None,
               triggers = 0 \<rparr>"

definition keys :: "manager \<Rightarrow> string list" where
  "keys st = map fst (models st)"

subsection \<open>getTempLaunchJsonContent\<close>

text \<open>
  The \<^verbatim>\<open>try\<close> block: read \<^verbatim>\<open>launch.json\<close> in the temp folder and parse it.
\<close>

definition readAndParse :: "services \<Rightarrow> URI \<Rightarrow> thrown + tempContent" where
  "readAndParse sv u =
     (case read sv u of
        Inl err \<Rightarrow> Inl err
      | Inr val \<Rightarrow>
          (case parse sv val of
             Inl err \<Rightarrow> Inl err
           | Inr cs \<Rightarrow> Inr (JsonContent u cs [])))"

definition errorMessage :: string where
  "errorMessage = ''Could not load debug configuration from IDE2 temp folder.''"

definition getTempLaunchJsonContent ::
  "(nat \<Rightarrow> services) \<Rightarrow> manager \<Rightarrow> (thrown + tempContent option) \<times> manager" where
  "getTempLaunchJsonContent E st0 =
     (let sv = E (invocations st0);
          st = st0\<lparr>invocations := Suc (invocations st0)\<rparr>
      in case currentSketch sv of
           None \<Rightarrow> (Inr None, st)
         | Some sketch \<Rightarrow>
             let tempFolderUri = getIdeTempFolderUri sv sketch;
                 st1 = st\<lparr>fileService := fileService st @ [CreateFolder tempFolderUri]\<rparr>
             in case createFolder sv tempFolderUri of
                  Some err \<Rightarrow> (Inl err, st1)
                | None \<Rightarrow>
                    let u = resolve tempFolderUri ''launch.json'';
                        st2 = st1\<lparr>fileService := fileService st1 @ [Read u]\<rparr>
                    in case readAndParse sv u of
                         Inr content \<Rightarrow> (Inr (Some content), st2)
                       | Inl err \<Rightarrow>
                           if isFileNotFound err then (Inr (Some (TempFolder tempFolderUri)), st2)
                           else (Inl err, st2\<lparr>console := console st2 @ [(errorMessage, err)]\<rparr>))"

subsection \<open>updateModels\<close>

text \<open>
  \<^verbatim>\<open>model.dispose()\<close>: the model is disposed and its disposal listeners run, each
  deleting its key from the model map.
\<close>

definition dispose :: "DebugConfigurationModel \<Rightarrow> manager \<Rightarrow> manager" where
  "dispose m st =
     st\<lparr> disposed := disposed st @ [workspaceFolderUri m],
         models := fold AList.delete (onDispose m) (models st) \<rparr>"

text \<open>
  The first loop, over the roots. \<open>toDelete\<close> is the \<^verbatim>\<open>Set\<close> of keys still to delete. A
  throw of \<^verbatim>\<open>getTempLaunchJsonContent\<close> leaves the loop with the manager as it is then.
\<close>

fun updateModels_roots ::
  "(nat \<Rightarrow> services) \<Rightarrow> URI list \<Rightarrow> string list \<Rightarrow> manager \<Rightarrow> (thrown + string list) \<times> manager" where
  "updateModels_roots E [] toDelete st = (Inr toDelete, st)"
| "updateModels_roots E (rootStat # roots) toDelete st =
     (let key = toString rootStat;
          toDelete' = removeAll key toDelete
      in if map_of (models st) key = None then
           (case getTempLaunchJsonContent E st of
              (Inl err, st') \<Rightarrow> (Inl err, st')
            | (Inr None, st') \<Rightarrow> updateModels_roots E roots toDelete' st'
            | (Inr (Some tempContent), st') \<Rightarrow>
                let cfgs = (case tempContent of TempFolder f \<Rightarrow> [] | JsonContent u cs cp \<Rightarrow> cs);
                    uri' = (case tempContent of TempFolder f \<Rightarrow> None | JsonContent u cs cp \<Rightarrow> Some u);
                    model = \<lparr> workspaceFolderUri = key, config = cfgs, configUri = uri',
                              onDidChange = 1, onDispose = [key] \<rparr>
                in updateModels_roots E roots toDelete'
                     (st'\<lparr>models := AList.update key model (models st')\<rparr>))
         else updateModels_roots E roots toDelete' st)"

text \<open>The second loop, over the keys left in \<open>toDelete\<close>.\<close>

fun updateModels_dispose :: "string list \<Rightarrow> manager \<Rightarrow> manager" where
  "updateModels_dispose [] st = st"
| "updateModels_dispose (k # ks) st =
     (case map_of (models st) k of
        Some model \<Rightarrow> updateModels_dispose ks (dispose model st)
      | None \<Rightarrow> updateModels_dispose ks st)"

text \<open>
  One reconciliation pass over the roots that \<^verbatim>\<open>workspaceService.roots\<close> answers, run
  from its start to its end with nothing in between: the promise of the pass rejects with
  \<open>Inl err\<close> or fulfils with \<open>Inr ()\<close>.
\<close>

definition updateModels ::
  "(nat \<Rightarrow> services) \<Rightarrow> URI list \<Rightarrow> manager \<Rightarrow> (thrown + unit) \<times> manager" where
  "updateModels E roots st =
     (case updateModels_roots E roots (keys st) st of
        (Inl err, st') \<Rightarrow> (Inl err, st')
      | (Inr toDelete, st') \<Rightarrow>
          (Inr (), (updateModels_dispose toDelete st')
                     \<lparr>updateCurrentCalls := Suc (updateCurrentCalls (updateModels_dispose toDelete st'))\<rparr>))"

subsection \<open>Passes that overlap\<close>

text \<open>
  Nothing in the file waits for a running pass: a pass that awaits
  \<^verbatim>\<open>getTempLaunchJsonContent\<close> (line 99) is suspended, and another call of the function
  can start a pass meanwhile. So a pass is also given in steps. A suspended pass holds
  what its closure holds at line 99: the \<^verbatim>\<open>key\<close>, the roots still to visit and
  \<^verbatim>\<open>toDelete\<close>, together with the answer that the invocation it awaits will deliver.
\<close>

datatype pass =
    Awaiting string "thrown + tempContent option" "URI list" "string list"
  | Fulfilled
  | Rejected thrown

text \<open>
  The pass runs from the head of the loop over the roots to its next \<^verbatim>\<open>await\<close>, where it
  makes the invocation, or through the loop over \<open>toDelete\<close> and \<^verbatim>\<open>updateCurrent\<close> to
  its end. The calls and the log entry of the invocation are put at the time of the call;
  the pass sees its answer when it is resumed.
\<close>

fun proceed ::
  "(nat \<Rightarrow> services) \<Rightarrow> URI list \<Rightarrow> string list \<Rightarrow> manager \<Rightarrow> pass \<times> manager" where
  "proceed E [] toDelete st =
     (Fulfilled, (updateModels_dispose toDelete st)
                   \<lparr>updateCurrentCalls := Suc (updateCurrentCalls (updateModels_dispose toDelete st))\<rparr>)"
| "proceed E (rootStat # roots) toDelete st =
     (let key = toString rootStat;
          toDelete' = removeAll key toDelete
      in if map_of (models st) key = None then
           (case getTempLaunchJsonContent E st of
              (answer, st') \<Rightarrow> (Awaiting key answer roots toDelete', st'))
         else proceed E roots toDelete' st)"

text \<open>The start of a pass over the roots that \<^verbatim>\<open>workspaceService.roots\<close> answers.\<close>

definition start :: "(nat \<Rightarrow> services) \<Rightarrow> URI list \<Rightarrow> manager \<Rightarrow> pass \<times> manager" where
  "start E roots st = proceed E roots (keys st) st"

text \<open>
  The awaited invocation settles and the pass goes on from line 100, on the manager as it
  is by then. A pass that has ended stays as it is.
\<close>

fun resume :: "(nat \<Rightarrow> services) \<Rightarrow> pass \<Rightarrow> manager \<Rightarrow> pass \<times> manager" where
  "resume E (Awaiting key (Inl err) roots toDelete) st = (Rejected err, st)"
| "resume E (Awaiting key (Inr None) roots toDelete) st = proceed E roots toDelete st"
| "resume E (Awaiting key (Inr (Some tempContent)) roots toDelete) st =
     (let cfgs = (case tempContent of TempFolder f \<Rightarrow> [] | JsonContent u cs cp \<Rightarrow> cs);
          uri' = (case tempContent of TempFolder f \<Rightarrow> None | JsonContent u cs cp \<Rightarrow> Some u);
          model = \<lparr> workspaceFolderUri = key, config = cfgs, configUri = uri',
                    onDidChange = 1, onDispose = [key] \<rparr>
      in proceed E roots toDelete (st\<lparr>models := AList.update key model (models st)\<rparr>))"
| "resume E Fulfilled st = (Fulfilled, st)"
| "resume E (Rejected err) st = (Rejected err, st)"

text \<open>A pass resumed \<open>n\<close> times in a row, with no step of another pass in between.\<close>

fun finish :: "nat \<Rightarrow> (nat \<Rightarrow> services) \<Rightarrow> pass \<times> manager \<Rightarrow> pass \<times> manager" where
  "finish 0 E c = c"
| "finish (Suc n) E (p, st) = finish n E (resume E p st)"

text \<open>
  A schedule: a pass starts over a snapshot of the roots, or the awaited invocation of the
  pass number \<open>i\<close> settles. The passes started so far are kept in the order of their start.
\<close>

datatype event = Start "URI list" | Settle nat

fun schedule ::
  "(nat \<Rightarrow> services) \<Rightarrow> event list \<Rightarrow> pass list \<times> manager \<Rightarrow> pass list \<times> manager" where
  "schedule E [] c = c"
| "schedule E (Start roots # evs) (ps, st) =
     (case start E roots st of (p, st') \<Rightarrow> schedule E evs (ps @ [p], st'))"
| "schedule E (Settle i # evs) (ps, st) =
     (if i < length ps
      then (case resume E (ps ! i) st of (p, st') \<Rightarrow> schedule E evs (ps[i := p], st'))
      else schedule E evs (ps, st))"

subsection \<open>The file-change listener of doInit\<close>

text \<open>The test of a change in the listener.\<close>

definition isTempLaunchJson :: "string \<Rightarrow> URI \<Rightarrow> bool" where
  "isTempLaunchJson tempFolderName resource \<longleftrightarrow>
     base resource = ''launch.json'' \<and> toLowerCase (base (parent resource)) = tempFolderName"

text \<open>
  The re-read started at a match, run to its end: the content is fired when it is neither
  \<^verbatim>\<open>undefined\<close> nor a URI. A rejection has no handler and fires nothing.
\<close>

definition reread :: "(nat \<Rightarrow> services) \<Rightarrow> manager \<Rightarrow> manager" where
  "reread E st =
     (case getTempLaunchJsonContent E st of
        (Inr (Some (JsonContent u cs cp)), st') \<Rightarrow> st'\<lparr>fired := fired st' @ [JsonContent u cs cp]\<rparr>
      | (Inr (Some (TempFolder f)), st') \<Rightarrow> st'
      | (Inr None, st') \<Rightarrow> st'
      | (Inl err, st') \<Rightarrow> st')"

text \<open>The listener on a batch of changes: the loop with its \<^verbatim>\<open>break\<close>.\<close>

fun onDidFilesChange :: "(nat \<Rightarrow> services) \<Rightarrow> string \<Rightarrow> URI list \<Rightarrow> manager \<Rightarrow> manager" where
  "onDidFilesChange E tempFolderName [] st = st"
| "onDidFilesChange E tempFolderName (resource # changes) st =
     (if isTempLaunchJson tempFolderName resource then reread E st
      else onDidFilesChange E tempFolderName changes st)"

text \<open>
  What \<^verbatim>\<open>doInit\<close> does once the application is ready: with no active sketch nothing is
  installed; otherwise the file is watched, the listener is installed with the lower-cased
  name of the temp folder, and the debounced \<^verbatim>\<open>updateModels\<close> is called. A throw of the
  first read is a rejection without a handler. The listener of \<^verbatim>\<open>watchLaunchConfigEditor\<close>
  (the read-only state of the editors) and the \<^verbatim>\<open>doInit\<close> of the base class are left out.
\<close>

definition doInit :: "(nat \<Rightarrow> services) \<Rightarrow> manager \<Rightarrow> manager" where
  "doInit E st =
     (case getTempLaunchJsonContent E st of
        (Inl err, st') \<Rightarrow> st'
      | (Inr None, st') \<Rightarrow> st'
      | (Inr (Some tempContent), st') \<Rightarrow>
          st'\<lparr> fileService := fileService st' @
                  [Watch (case tempContent of TempFolder f \<Rightarrow> f | JsonContent u cs cp \<Rightarrow> u)],
               listener := Some (toLowerCase (base
                  (case tempContent of TempFolder f \<Rightarrow> f | JsonContent u cs cp \<Rightarrow> parent u))),
               triggers := Suc (triggers st') \<rparr>)"

text \<open>A batch of changes delivered by the file service: the installed listener, if any, runs.\<close>

definition filesChanged :: "(nat \<Rightarrow> services) \<Rightarrow> URI list \<Rightarrow> manager \<Rightarrow> manager" where
  "filesChanged E changes st =
     (case listener st of
        None \<Rightarrow> st
      | Some tempFolderName \<Rightarrow> onDidFilesChange E tempFolderName changes st)"

subsection \<open>Example services\<close>

text \<open>
  Services for the concrete runs below: a sketch named \<open>Blink\<close> whose temp folder is
  \<open>tempDir\<close>, with no \<^verbatim>\<open>launch.json\<close> (\<open>svMissing\<close>), with a \<^verbatim>\<open>launch.json\<close> of one entry
  (\<open>svPresent\<close>), with a malformed one (\<open>svMalformed\<close>), with an unreadable one
  (\<open>svDenied\<close>), with a temp folder that cannot be created (\<open>svNoFolder\<close>), and no valid
  sketch at all (\<open>svNoSketch\<close>).
\<close>

definition tempDir :: URI where
  "tempDir = URI [''tmp'', ''arduino-ide2-A0337D47'']"

definition svMissing :: services where
  "svMissing = \<lparr> currentSketch = Some ''Blink'', getIdeTempFolderUri = (\<lambda>s. tempDir),
       createFolder = (\<lambda>u. None), read = (\<lambda>u. Inl (FileOperationError FILE_NOT_FOUND)),
       parse = (\<lambda>s. Inr []) \<rparr>"

definition svPresent :: services where
  "svPresent = svMissing \<lparr> read := (\<lambda>u. Inr ''{\"configurations\": [{\"name\": \"Debug\"}]}''),
       parse := (\<lambda>s. Inr [DebugConfiguration ''Debug'']) \<rparr>"

definition svMalformed :: services where
  "svMalformed = svMissing \<lparr> read := (\<lambda>u. Inr ''{\"configurations\": [''),
       parse := (\<lambda>s. Inl (OtherError ''SyntaxError'')) \<rparr>"

definition svDenied :: services where
  "svDenied = svMissing \<lparr> read := (\<lambda>u. Inl (FileOperationError FILE_PERMISSION_DENIED)) \<rparr>"

definition svNoFolder :: services where
  "svNoFolder = svMissing \<lparr> createFolder := (\<lambda>u. Some (FileOperationError FILE_PERMISSION_DENIED)) \<rparr>"

definition svNoSketch :: services where
  "svNoSketch = svMissing \<lparr> currentSketch := None \<rparr>"

text \<open>Three workspace roots.\<close>

definition rootA :: URI where
  "rootA = URI [''work'', ''a'']"

definition rootB :: URI where
  "rootB = URI [''work'', ''b'']"

definition rootOld :: URI where
  "rootOld = URI [''work'', ''old'']"

text \<open>The same services at every invocation, and a script of services followed by a default.\<close>

definition always :: "services \<Rightarrow> nat \<Rightarrow> services" where
  "always sv n = sv"

definition script :: "services list \<Rightarrow> services \<Rightarrow> nat \<Rightarrow> services" where
  "script svs sv n = (if n < length svs then svs ! n else sv)"

text \<open>
  Services that answer a \<^verbatim>\<open>launch.json\<close> to the first two invocations and a malformed
  one to the third.
\<close>

definition envC9 :: "nat \<Rightarrow> services" where
  "envC9 = script [svPresent, svPresent, svMalformed] svMissing"

text \<open>Services that answer a \<^verbatim>\<open>launch.json\<close> to the first invocation and none afterwards.\<close>

definition envC4 :: "nat \<Rightarrow> services" where
  "envC4 = script [svPresent] svMissing"

text \<open>
  Services that answer a \<^verbatim>\<open>launch.json\<close> to the first invocation, no valid sketch to the
  second and no \<^verbatim>\<open>launch.json\<close> afterwards.
\<close>

definition envC1 :: "nat \<Rightarrow> services" where
  "envC1 = script [svPresent, svNoSketch, svMissing] svMissing"

text \<open>
  Two changed resources: a \<^verbatim>\<open>launch.json\<close> in a folder whose name is that of \<open>tempDir\<close> in
  lower case, and a sketch file.
\<close>

definition changedLaunchJson :: URI where
  "changedLaunchJson = URI [''private'', ''tmp'', ''arduino-ide2-a0337d47'', ''launch.json'']"

definition changedOther :: URI where
  "changedOther = URI [''work'', ''a'', ''a.ino'']"

text \<open>A fourth workspace root.\<close>

definition rootC :: URI where
  "rootC = URI [''work'', ''c'']"

text \<open>
  Two passes that overlap: a pass over \<open>rootA\<close> starts and awaits its read; a pass over
  \<open>rootB\<close> starts meanwhile, on the model map that is still empty; then the read of the
  first pass settles, and then the read of the second.
\<close>

definition envOverlap :: "nat \<Rightarrow> services" where
  "envOverlap = script [svPresent, svPresent, svNoSketch, svMissing] svMissing"

definition overlapped :: "pass list \<times> manager" where
  "overlapped =
     schedule envOverlap [Start [rootA], Start [rootB], Settle 0, Settle 1] ([], initial)"

text \<open>Services that find no \<^verbatim>\<open>launch.json\<close> at the first invocation and a malformed one at the second.\<close>

definition envC4x :: "nat \<Rightarrow> services" where
  "envC4x = script [svMissing, svMalformed] svMissing"

subsection \<open>Notions used in the statements\<close>

text \<open>
  The managers that \<^verbatim>\<open>updateModels\<close> builds: one model per key, registered under the key
  it was made for, with the one disposal listener that deletes that key.
\<close>

definition wellFormed :: "manager \<Rightarrow> bool" where
  "wellFormed st \<longleftrightarrow>
     distinct (keys st) \<and>
     (\<forall>(k, m) \<in> set (models st). workspaceFolderUri m = k \<and> onDispose m = [k])"

text \<open>The roots of a snapshot that have no model yet: the newly-appearing roots.\<close>

definition newRoots :: "manager \<Rightarrow> URI list \<Rightarrow> URI list" where
  "newRoots st roots = filter (\<lambda>r. map_of (models st) (toString r) = None) roots"

text \<open>
  The keys of the newly-appearing roots \<open>news\<close> for which a sketch was there to resolve,
  when the root number \<open>i\<close> is served by the invocation number \<open>n + i\<close>.
\<close>

definition resolved :: "(nat \<Rightarrow> services) \<Rightarrow> nat \<Rightarrow> URI list \<Rightarrow> string list" where
  "resolved E n news =
     concat (map (\<lambda>i. if currentSketch (E (n + i)) = None then [] else [toString (news ! i)])
                 [0 ..< length news])"

text \<open>
  The calls of the file service that one invocation of \<^verbatim>\<open>getTempLaunchJsonContent\<close>
  makes, given the services it finds.
\<close>

definition calls :: "services \<Rightarrow> fileServiceCall list" where
  "calls sv =
     (case currentSketch sv of
        None \<Rightarrow> []
      | Some sketch \<Rightarrow>
          CreateFolder (getIdeTempFolderUri sv sketch) #
          (case createFolder sv (getIdeTempFolderUri sv sketch) of
             None \<Rightarrow> [Read (resolve (getIdeTempFolderUri sv sketch) ''launch.json'')]
           | Some err \<Rightarrow> []))"

text \<open>The model that \<^verbatim>\<open>updateModels\<close> makes for a key when there is no \<^verbatim>\<open>launch.json\<close>.\<close>

definition emptyModel :: "string \<Rightarrow> DebugConfigurationModel" where
  "emptyModel key = \<lparr> workspaceFolderUri = key, config = [], configUri = None,
                       onDidChange = 1, onDispose = [key] \<rparr>"

section \<open>Properties\<close>

subsection \<open>getTempLaunchJsonContent\<close>

lemma getTemp_invocations:
  "invocations (snd (getTempLaunchJsonContent E st)) = Suc (invocations st)"
  by (simp add: getTempLaunchJsonContent_def Let_def split: option.splits sum.splits)

lemma getTemp_models: "models (snd (getTempLaunchJsonContent E st)) = models st"
  by (simp add: getTempLaunchJsonContent_def Let_def split: option.splits sum.splits)

lemma getTemp_quiet:
  "fired (snd (getTempLaunchJsonContent E st)) = fired st"
  "updateCurrentCalls (snd (getTempLaunchJsonContent E st)) = updateCurrentCalls st"
  "disposed (snd (getTempLaunchJsonContent E st)) = disposed st"
  "listener (snd (getTempLaunchJsonContent E st)) = listener st"
  "triggers (snd (getTempLaunchJsonContent E st)) = triggers st"
  by (simp_all add: getTempLaunchJsonContent_def Let_def split: option.splits sum.splits)

text \<open>
  Claim C3. With a valid current sketch, when the read of \<^verbatim>\<open>launch.json\<close> fails with a
  \<^verbatim>\<open>FileOperationError\<close> of kind \<^verbatim>\<open>FILE_NOT_FOUND\<close>, \<^verbatim>\<open>getTempLaunchJsonContent\<close>
  returns the URI of the temp folder: it does not throw, and it logs nothing.
\<close>

theorem not_found_returns_temp_folder:
  assumes "currentSketch (E (invocations st)) = Some sketch"
    and "createFolder (E (invocations st)) (getIdeTempFolderUri (E (invocations st)) sketch) = None"
    and "read (E (invocations st))
           (resolve (getIdeTempFolderUri (E (invocations st)) sketch) ''launch.json'') = Inl err"
    and "isFileNotFound err"
  shows "fst (getTempLaunchJsonContent E st)
           = Inr (Some (TempFolder (getIdeTempFolderUri (E (invocations st)) sketch)))
       \<and> console (snd (getTempLaunchJsonContent E st)) = console st"
  using assms by (simp add: getTempLaunchJsonContent_def readAndParse_def Let_def)

theorem not_found_returns_temp_folder_witness:
  "fst (getTempLaunchJsonContent (always svMissing) initial) = Inr (Some (TempFolder tempDir))
   \<and> console (snd (getTempLaunchJsonContent (always svMissing) initial)) = []"
  using not_found_returns_temp_folder
          [of "always svMissing" initial "''Blink''" "FileOperationError FILE_NOT_FOUND"]
  by (simp add: always_def svMissing_def initial_def)

text \<open>
  Claim C6, as stated, fails: a failure of \<^verbatim>\<open>createFolder\<close> happens before the
  \<^verbatim>\<open>try\<close> block, so it reaches the caller with nothing logged.
\<close>

theorem folder_failure_is_not_logged:
  "fst (getTempLaunchJsonContent (always svNoFolder) initial)
     = Inl (FileOperationError FILE_PERMISSION_DENIED)
   \<and> console (snd (getTempLaunchJsonContent (always svNoFolder) initial)) = []"
  by (simp add: getTempLaunchJsonContent_def always_def svNoFolder_def svMissing_def
        initial_def Let_def)

text \<open>
  Claim C6, amended. With a valid current sketch: a failure inside the \<^verbatim>\<open>try\<close> block
  (a read that fails with anything but file-not-found, or a parse that throws) is logged
  once, with the message, and then thrown to the caller; a failure of \<^verbatim>\<open>createFolder\<close>
  is thrown to the caller and not logged.
\<close>

theorem unexpected_failure_logging:
  assumes "currentSketch (E (invocations st)) = Some sketch"
    and "sv = E (invocations st)" and "f = getIdeTempFolderUri sv sketch"
    and "r = getTempLaunchJsonContent E st"
  shows "(createFolder sv f = None \<and> readAndParse sv (resolve f ''launch.json'') = Inl err
            \<and> \<not> isFileNotFound err
          \<longrightarrow> fst r = Inl err \<and> console (snd r) = console st @ [(errorMessage, err)])
       \<and> (createFolder sv f = Some err
          \<longrightarrow> fst r = Inl err \<and> console (snd r) = console st)"
  using assms by (simp add: getTempLaunchJsonContent_def Let_def)

theorem unexpected_failure_logging_witness:
  "(fst (getTempLaunchJsonContent (always svMalformed) initial) = Inl (OtherError ''SyntaxError'')
     \<and> console (snd (getTempLaunchJsonContent (always svMalformed) initial))
         = [(errorMessage, OtherError ''SyntaxError'')])
   \<and> (fst (getTempLaunchJsonContent (always svDenied) initial)
         = Inl (FileOperationError FILE_PERMISSION_DENIED)
     \<and> console (snd (getTempLaunchJsonContent (always svDenied) initial))
         = [(errorMessage, FileOperationError FILE_PERMISSION_DENIED)])
   \<and> (fst (getTempLaunchJsonContent (always svNoFolder) initial)
         = Inl (FileOperationError FILE_PERMISSION_DENIED)
     \<and> console (snd (getTempLaunchJsonContent (always svNoFolder) initial)) = [])"
  using unexpected_failure_logging
          [of "always svMalformed" initial "''Blink''" svMalformed tempDir
              "getTempLaunchJsonContent (always svMalformed) initial" "OtherError ''SyntaxError''"]
        unexpected_failure_logging
          [of "always svDenied" initial "''Blink''" svDenied tempDir
              "getTempLaunchJsonContent (always svDenied) initial"
              "FileOperationError FILE_PERMISSION_DENIED"]
        unexpected_failure_logging
          [of "always svNoFolder" initial "''Blink''" svNoFolder tempDir
              "getTempLaunchJsonContent (always svNoFolder) initial"
              "FileOperationError FILE_PERMISSION_DENIED"]
  by (simp add: always_def svMalformed_def svDenied_def svNoFolder_def svMissing_def
        initial_def readAndParse_def)

subsection \<open>The loop over the roots\<close>

lemma update_new: "map_of al k = None \<Longrightarrow> AList.update k v al = al @ [(k, v)]"
  by (induction al) (auto split: if_splits)

lemma getTemp_snd:
  assumes "getTempLaunchJsonContent E st = (res, st')"
  shows "models st' = models st" "invocations st' = Suc (invocations st)"
    "fired st' = fired st" "updateCurrentCalls st' = updateCurrentCalls st"
    "disposed st' = disposed st" "listener st' = listener st" "triggers st' = triggers st"
  using getTemp_models [of E st] getTemp_invocations [of E st] getTemp_quiet [of E st] assms
  by simp_all

lemma roots_quiet:
  "fired (snd (updateModels_roots E roots td st)) = fired st \<and>
   updateCurrentCalls (snd (updateModels_roots E roots td st)) = updateCurrentCalls st \<and>
   disposed (snd (updateModels_roots E roots td st)) = disposed st \<and>
   listener (snd (updateModels_roots E roots td st)) = listener st \<and>
   triggers (snd (updateModels_roots E roots td st)) = triggers st"
proof (induction roots arbitrary: td st)
  case Nil
  show ?case by simp
next
  case (Cons r roots)
  obtain res st' where g: "getTempLaunchJsonContent E st = (res, st')"
    by force
  note q = getTemp_snd [OF g]
  show ?case
    using Cons.IH q g by (simp add: Let_def split: sum.splits option.splits)
qed

lemma roots_invocations_mono:
  "invocations st \<le> invocations (snd (updateModels_roots E roots td st))"
proof (induction roots arbitrary: td st)
  case Nil
  show ?case by simp
next
  case (Cons r roots)
  obtain res st' where g: "getTempLaunchJsonContent E st = (res, st')"
    by force
  note q = getTemp_snd [OF g]
  have le: "\<And>td s. invocations s = Suc (invocations st) \<Longrightarrow>
      invocations st \<le> invocations (snd (updateModels_roots E roots td s))"
    using Cons.IH by (metis Suc_leD)
  show ?case
    using Cons.IH le q g by (simp add: Let_def split: sum.splits option.splits)
qed

lemma roots_old_kept:
  "map_of (models st) k = Some m \<Longrightarrow>
   map_of (models (snd (updateModels_roots E roots td st))) k = Some m"
proof (induction roots arbitrary: td st)
  case Nil
  then show ?case by simp
next
  case (Cons r roots)
  obtain res st' where g: "getTempLaunchJsonContent E st = (res, st')"
    by force
  note q = getTemp_snd [OF g]
  show ?case
  proof (cases "map_of (models st) (toString r) = None")
    case False
    then show ?thesis using Cons by (auto simp: Let_def)
  next
    case True
    then have ne: "toString r \<noteq> k" using Cons.prems by auto
    show ?thesis
    proof (cases res)
      case (Inl err)
      then show ?thesis using True g q Cons.prems by (simp add: Let_def)
    next
      case (Inr c)
      show ?thesis
      proof (cases c)
        case None
        then show ?thesis using True g q Inr Cons by (simp add: Let_def)
      next
        case (Some tc)
        have "map_of (AList.update (toString r) mm (models st')) k = Some m" for mm
          using ne q Cons.prems by (simp add: update_conv')
        then show ?thesis using True g Inr Some Cons.IH by (simp add: Let_def)
      qed
    qed
  qed
qed

lemma roots_toDelete:
  "updateModels_roots E roots td st = (Inr td', st') \<Longrightarrow>
   td' = filter (\<lambda>k. k \<notin> toString ` set roots) td"
proof (induction roots arbitrary: td st)
  case Nil
  then show ?case by simp
next
  case (Cons r roots)
  have f: "filter (\<lambda>k. k \<notin> toString ` set roots) (removeAll (toString r) td)
         = filter (\<lambda>k. k \<notin> toString ` set (r # roots)) td"
    by (induction td) auto
  from Cons.prems have "td' = filter (\<lambda>k. k \<notin> toString ` set roots) (removeAll (toString r) td)"
    by (auto simp: Let_def split: if_splits prod.splits sum.splits option.splits
             dest: Cons.IH)
  then show ?case using f by simp
qed

lemma roots_append:
  "updateModels_roots E (xs @ ys) td st =
     (case updateModels_roots E xs td st of
        (Inl err, st') \<Rightarrow> (Inl err, st')
      | (Inr td', st') \<Rightarrow> updateModels_roots E ys td' st')"
  by (induction xs arbitrary: td st)
     (simp_all add: Let_def split: prod.splits sum.splits option.splits)

lemma roots_keys_subset:
  "set (keys (snd (updateModels_roots E roots td st))) \<subseteq> set (keys st) \<union> toString ` set roots"
proof (induction roots arbitrary: td st)
  case Nil
  show ?case by simp
next
  case (Cons r roots)
  obtain res st' where g: "getTempLaunchJsonContent E st = (res, st')"
    by force
  note q = getTemp_snd [OF g]
  have k: "keys st' = keys st" using q by (simp add: keys_def)
  have u: "set (keys (s\<lparr>models := AList.update (toString r) mm (models st')\<rparr>))
            = insert (toString r) (set (keys st))" for mm and s :: manager
    using q(1) dom_update [of "toString r" mm "models st"] by (simp add: keys_def)
  have a: "set (keys (snd (updateModels_roots E roots td' st'))) \<subseteq> set (keys st) \<union> toString ` set roots" for td'
    using Cons.IH [of td' st'] k by simp
  have b: "set (keys (snd (updateModels_roots E roots td' (st'\<lparr>models := AList.update (toString r) mm (models st')\<rparr>))))
        \<subseteq> insert (toString r) (set (keys st)) \<union> toString ` set roots" for td' mm
    using Cons.IH [of td' "st'\<lparr>models := AList.update (toString r) mm (models st')\<rparr>"] u by simp
  show ?case
    using Cons.IH [of _ st] a b g k
    by (auto simp: Let_def split: sum.splits option.splits)
qed

lemma roots_wellFormed:
  "wellFormed st \<Longrightarrow> wellFormed (snd (updateModels_roots E roots td st))"
proof (induction roots arbitrary: td st)
  case Nil
  then show ?case by simp
next
  case (Cons r roots)
  obtain res st' where g: "getTempLaunchJsonContent E st = (res, st')"
    by force
  note q = getTemp_snd [OF g]
  have w: "wellFormed st'" using Cons.prems q by (simp add: wellFormed_def keys_def)
  have u: "wellFormed (st'\<lparr>models := AList.update (toString r) mm (models st')\<rparr>)"
    if "onDispose mm = [toString r]" and "map_of (models st) (toString r) = None"
      and "workspaceFolderUri mm = toString r" for mm
  proof -
    have "AList.update (toString r) mm (models st') = models st' @ [(toString r, mm)]"
      using that q by (simp add: update_new)
    moreover have "toString r \<notin> fst ` set (models st')"
      using that q by (simp add: map_of_eq_None_iff)
    ultimately show ?thesis
      using w that by (auto simp: wellFormed_def keys_def)
  qed
  show ?case
    using Cons.IH [OF Cons.prems] Cons.IH [OF w] Cons.IH [OF u] g w
    by (simp add: Let_def split: sum.splits option.splits)
qed

subsection \<open>Disposal and the calls of the file service\<close>

lemma dispose_registered:
  assumes "wellFormed st" and "map_of (models st) k = Some m"
  shows "models (dispose m st) = filter (\<lambda>(k', m'). k' \<noteq> k) (models st)"
    and "disposed (dispose m st) = disposed st @ [k]"
    and "wellFormed (dispose m st)"
proof -
  from assms(2) have mem: "(k, m) \<in> set (models st)"
    by (rule map_of_SomeD)
  with assms(1) have l: "onDispose m = [k]" and w: "workspaceFolderUri m = k"
    by (auto simp: wellFormed_def)
  have "AList.delete k (models st) = filter (\<lambda>(k', m'). k' \<noteq> k) (models st)"
    unfolding AList.delete_eq by (rule filter_cong) auto
  then show m: "models (dispose m st) = filter (\<lambda>(k', m'). k' \<noteq> k) (models st)"
    using l by (simp add: dispose_def)
  show "disposed (dispose m st) = disposed st @ [k]"
    using w by (simp add: dispose_def)
  show "wellFormed (dispose m st)"
    using assms(1) m by (auto simp: wellFormed_def keys_def distinct_map_filter)
qed

lemma dispose_quiet:
  "fired (dispose m st) = fired st" "updateCurrentCalls (dispose m st) = updateCurrentCalls st"
  "console (dispose m st) = console st" "fileService (dispose m st) = fileService st"
  "invocations (dispose m st) = invocations st" "listener (dispose m st) = listener st"
  "triggers (dispose m st) = triggers st"
  by (simp_all add: dispose_def)

lemma dispose_loop_quiet:
  "fired (updateModels_dispose td st) = fired st \<and>
   updateCurrentCalls (updateModels_dispose td st) = updateCurrentCalls st \<and>
   console (updateModels_dispose td st) = console st \<and>
   fileService (updateModels_dispose td st) = fileService st \<and>
   invocations (updateModels_dispose td st) = invocations st \<and>
   listener (updateModels_dispose td st) = listener st \<and>
   triggers (updateModels_dispose td st) = triggers st"
  by (induction td arbitrary: st) (simp_all add: dispose_quiet split: option.splits)

lemma dispose_loop:
  assumes "wellFormed st" and "distinct td"
  shows "models (updateModels_dispose td st) = filter (\<lambda>(k, m). k \<notin> set td) (models st)
       \<and> disposed (updateModels_dispose td st) = disposed st @ filter (\<lambda>k. k \<in> set (keys st)) td
       \<and> wellFormed (updateModels_dispose td st)"
  using assms
proof (induction td arbitrary: st)
  case Nil
  then show ?case by simp
next
  case (Cons k ks)
  show ?case
  proof (cases "map_of (models st) k")
    case None
    then have nk: "k \<notin> set (keys st)"
      by (simp add: keys_def map_of_eq_None_iff)
    then have "filter (\<lambda>(k', m). k' \<notin> set (k # ks)) (models st)
             = filter (\<lambda>(k', m). k' \<notin> set ks) (models st)"
      by (intro filter_cong) (force simp: keys_def)+
    then show ?thesis
      using None nk Cons.IH [of st] Cons.prems by simp
  next
    case (Some m)
    note d = dispose_registered [OF Cons.prems(1) Some]
    have ks: "distinct ks" and kn: "k \<notin> set ks" using Cons.prems(2) by auto
    have ik: "k \<in> set (keys st)"
      using Some by (auto simp: keys_def dest: map_of_SomeD intro: rev_image_eqI)
    have k': "keys (dispose m st) = filter (\<lambda>k'. k' \<noteq> k) (keys st)"
      using d(1) by (simp add: keys_def filter_map comp_def case_prod_unfold)
    have f1: "filter (\<lambda>k'. k' \<in> set (keys (dispose m st))) ks
            = filter (\<lambda>k'. k' \<in> set (keys st)) ks"
      using kn k' by (intro filter_cong) auto
    have f2: "filter (\<lambda>(k', m). k' \<notin> set ks) (models (dispose m st))
            = filter (\<lambda>(k', m). k' \<notin> set (k # ks)) (models st)"
      using d(1) by (auto simp: case_prod_unfold intro: filter_cong)
    show ?thesis
      using Some Cons.IH [OF d(3) ks] d(2) f1 f2 ik by simp
  qed
qed

lemma map_of_filter_keys:
  "map_of (filter (\<lambda>(k, m). P k) al) k = (if P k then map_of al k else None)"
  by (induction al) auto

lemma getTemp_fileService:
  "fileService (snd (getTempLaunchJsonContent E st)) = fileService st @ calls (E (invocations st))"
  by (simp add: getTempLaunchJsonContent_def calls_def Let_def split: option.splits sum.splits)

lemma getTemp_None:
  "fst (getTempLaunchJsonContent E st) = Inr None \<longleftrightarrow> currentSketch (E (invocations st)) = None"
  by (simp add: getTempLaunchJsonContent_def Let_def split: option.splits sum.splits)

lemma roots_fileService:
  "fileService (snd (updateModels_roots E roots td st))
     = fileService st @
       concat (map (\<lambda>n. calls (E n))
                   [invocations st ..< invocations (snd (updateModels_roots E roots td st))])"
proof (induction roots arbitrary: td st)
  case Nil
  show ?case by simp
next
  case (Cons r roots)
  obtain res st' where g: "getTempLaunchJsonContent E st = (res, st')"
    by force
  note q = getTemp_snd [OF g]
  have fs: "fileService st' = fileService st @ calls (E (invocations st))"
    using getTemp_fileService [of E st] g by simp
  have step: "fileService (snd (updateModels_roots E roots td' s))
        = fileService st @ concat (map (\<lambda>n. calls (E n))
             [invocations st ..< invocations (snd (updateModels_roots E roots td' s))])"
    if "fileService s = fileService st'" and "invocations s = Suc (invocations st)"
    for td' s
  proof -
    have "Suc (invocations st) \<le> invocations (snd (updateModels_roots E roots td' s))"
      using roots_invocations_mono [of s E roots td'] that by simp
    then have "[invocations st ..< invocations (snd (updateModels_roots E roots td' s))]
        = invocations st # [Suc (invocations st) ..< invocations (snd (updateModels_roots E roots td' s))]"
      by (simp add: upt_conv_Cons)
    then show ?thesis
      using Cons.IH [of td' s] that fs by simp
  qed
  show ?case
  proof (cases "map_of (models st) (toString r) = None")
    case False
    then show ?thesis using Cons.IH [of _ st] by (auto simp: Let_def)
  next
    case True
    show ?thesis
      using True g q fs step
      by (simp add: Let_def split: sum.splits option.splits)
  qed
qed

subsection \<open>One pass\<close>

lemma in_keys_iff: "k \<in> set (keys st) \<longleftrightarrow> map_of (models st) k \<noteq> None"
  by (simp add: keys_def map_of_eq_None_iff)

lemma updateModels_throws:
  "updateModels E roots st = (Inl err, st') \<longleftrightarrow>
   updateModels_roots E roots (keys st) st = (Inl err, st')"
  by (auto simp: updateModels_def split: prod.splits sum.splits)

lemma updateModels_fulfils:
  assumes w: "wellFormed st"
    and r: "updateModels_roots E roots (keys st) st = (Inr td1, st1)"
  shows "fst (updateModels E roots st) = Inr ()"
    and "models (snd (updateModels E roots st))
           = filter (\<lambda>(k, m). k \<in> toString ` set roots) (models st1)"
    and "disposed (snd (updateModels E roots st))
           = disposed st @ filter (\<lambda>k. k \<notin> toString ` set roots) (keys st)"
    and "updateCurrentCalls (snd (updateModels E roots st)) = Suc (updateCurrentCalls st)"
    and "invocations (snd (updateModels E roots st)) = invocations st1"
    and "fileService (snd (updateModels E roots st)) = fileService st1"
    and "wellFormed (snd (updateModels E roots st))"
proof -
  have td1: "td1 = filter (\<lambda>k. k \<notin> toString ` set roots) (keys st)"
    using roots_toDelete [OF r] .
  have w1: "wellFormed st1"
    using roots_wellFormed [OF w, of E roots "keys st"] r by simp
  have d1: "distinct td1"
    using w td1 by (simp add: wellFormed_def)
  note dl = dispose_loop [OF w1 d1]
  have sub: "set (keys st1) \<subseteq> set (keys st) \<union> toString ` set roots"
    using roots_keys_subset [of E roots "keys st" st] r by simp
  have kept: "set (keys st) \<subseteq> set (keys st1)"
  proof
    fix k assume "k \<in> set (keys st)"
    then obtain m where "map_of (models st) k = Some m"
      by (auto simp: in_keys_iff)
    then have "map_of (models st1) k = Some m"
      using roots_old_kept [of st k m E roots "keys st"] r by simp
    then show "k \<in> set (keys st1)"
      by (simp add: in_keys_iff)
  qed
  have q: "disposed st1 = disposed st" "updateCurrentCalls st1 = updateCurrentCalls st"
    using roots_quiet [of E roots "keys st" st] r by simp_all
  have u: "updateModels E roots st
         = (Inr (), (updateModels_dispose td1 st1)
              \<lparr>updateCurrentCalls := Suc (updateCurrentCalls (updateModels_dispose td1 st1))\<rparr>)"
    using r by (simp add: updateModels_def)
  show "fst (updateModels E roots st) = Inr ()"
    using u by simp
  have "filter (\<lambda>(k, m). k \<notin> set td1) (models st1)
      = filter (\<lambda>(k, m). k \<in> toString ` set roots) (models st1)"
  proof (rule filter_cong [OF refl])
    fix x assume "x \<in> set (models st1)"
    then have "fst x \<in> set (keys st1)" by (simp add: keys_def)
    then show "(case x of (k, m) \<Rightarrow> k \<notin> set td1) = (case x of (k, m) \<Rightarrow> k \<in> toString ` set roots)"
      using sub td1 by (auto simp: case_prod_unfold)
  qed
  then show "models (snd (updateModels E roots st))
           = filter (\<lambda>(k, m). k \<in> toString ` set roots) (models st1)"
    using u dl by simp
  have "set td1 \<subseteq> set (keys st1)"
    using kept td1 by auto
  then have "filter (\<lambda>k. k \<in> set (keys st1)) td1 = td1"
    by (simp add: filter_id_conv subset_eq)
  then show "disposed (snd (updateModels E roots st))
           = disposed st @ filter (\<lambda>k. k \<notin> toString ` set roots) (keys st)"
    using u dl q td1 by simp
  show "updateCurrentCalls (snd (updateModels E roots st)) = Suc (updateCurrentCalls st)"
    using u q dispose_loop_quiet [of td1 st1] by simp
  show "invocations (snd (updateModels E roots st)) = invocations st1"
    using u dispose_loop_quiet [of td1 st1] by simp
  show "fileService (snd (updateModels E roots st)) = fileService st1"
    using u dispose_loop_quiet [of td1 st1] by simp
  have "wellFormed (updateModels_dispose td1 st1)"
    using dl by blast
  then show "wellFormed (snd (updateModels E roots st))"
    using u by (simp add: wellFormed_def keys_def)
qed

lemma updateModels_wellFormed:
  assumes "wellFormed st"
  shows "wellFormed (snd (updateModels E roots st))"
proof (cases "updateModels_roots E roots (keys st) st")
  case (Pair res st1)
  show ?thesis
  proof (cases res)
    case (Inl err)
    then have "snd (updateModels E roots st) = st1"
      using Pair by (simp add: updateModels_def)
    then show ?thesis
      using roots_wellFormed [OF assms, of E roots "keys st"] Pair by simp
  next
    case (Inr td1)
    then show ?thesis
      using updateModels_fulfils(7) [OF assms] Pair by simp
  qed
qed

lemma wellFormed_initial: "wellFormed initial"
  by (simp add: wellFormed_def initial_def keys_def)

lemma roots_throw_split:
  "updateModels_roots E roots td st = (Inl err, st') \<Longrightarrow>
   \<exists>pre r post td1 st1.
     roots = pre @ r # post \<and> updateModels_roots E pre td st = (Inr td1, st1) \<and>
     map_of (models st1) (toString r) = None \<and>
     getTempLaunchJsonContent E st1 = (Inl err, st')"
proof (induction roots arbitrary: td st)
  case Nil
  then show ?case by simp
next
  case (Cons r roots)
  let ?td = "removeAll (toString r) td"
  have lift: "\<exists>pre r' post td1 st1.
     r # roots = pre @ r' # post \<and> updateModels_roots E pre td st = (Inr td1, st1) \<and>
     map_of (models st1) (toString r') = None \<and>
     getTempLaunchJsonContent E st1 = (Inl err, st')"
    if rest: "updateModels_roots E roots ?td s = (Inl err, st')"
      and one: "updateModels_roots E [r] td st = (Inr ?td, s)" for s
  proof -
    from Cons.IH [OF rest] obtain pre r' post td1 st1 where
      p: "roots = pre @ r' # post" "updateModels_roots E pre ?td s = (Inr td1, st1)"
         "map_of (models st1) (toString r') = None"
         "getTempLaunchJsonContent E st1 = (Inl err, st')"
      by blast
    have "updateModels_roots E (r # pre) td st = (Inr td1, st1)"
      using roots_append [of E "[r]" pre td st] one p(2) by simp
    with p(1,3,4) show ?thesis
      by (metis append_Cons)
  qed
  obtain res s where g: "getTempLaunchJsonContent E st = (res, s)"
    by force
  show ?case
  proof (cases "map_of (models st) (toString r) = None")
    case False
    then have "updateModels_roots E roots ?td st = (Inl err, st')"
      and "updateModels_roots E [r] td st = (Inr ?td, st)"
      using Cons.prems by (auto simp: Let_def)
    then show ?thesis by (rule lift)
  next
    case True
    show ?thesis
    proof (cases res)
      case (Inl e)
      then have "getTempLaunchJsonContent E st = (Inl err, st')"
        using True g Cons.prems by (simp add: Let_def)
      then have "r # roots = [] @ r # roots \<and> updateModels_roots E [] td st = (Inr td, st) \<and>
          map_of (models st) (toString r) = None \<and>
          getTempLaunchJsonContent E st = (Inl err, st')"
        using True by simp
      then show ?thesis by blast
    next
      case (Inr c)
      show ?thesis
      proof (cases c)
        case None
        then have "updateModels_roots E roots ?td s = (Inl err, st')"
          and "updateModels_roots E [r] td st = (Inr ?td, s)"
          using True g Inr Cons.prems by (simp_all add: Let_def)
        then show ?thesis by (rule lift)
      next
        case (Some tc)
        then obtain s' where
          "updateModels_roots E roots ?td s' = (Inl err, st')"
          and "updateModels_roots E [r] td st = (Inr ?td, s')"
          using True g Inr Cons.prems by (simp add: Let_def)
        then show ?thesis by (rule lift)
      qed
    qed
  qed
qed

subsection \<open>A pass that throws\<close>

lemma roots_models_extend:
  "\<exists>new. models (snd (updateModels_roots E roots td st)) = models st @ new"
proof (induction roots arbitrary: td st)
  case Nil
  show ?case by simp
next
  case (Cons r roots)
  obtain res st' where g: "getTempLaunchJsonContent E st = (res, st')"
    by force
  note q = getTemp_snd [OF g]
  have same: "\<exists>new. models (snd (updateModels_roots E roots td' st')) = models st @ new" for td'
    using Cons.IH [of td' st'] q by simp
  have more: "\<exists>new. models (snd (updateModels_roots E roots td'
                  (st'\<lparr>models := AList.update (toString r) mm (models st')\<rparr>))) = models st @ new"
    if "map_of (models st) (toString r) = None" for td' mm
  proof -
    obtain new where "models (snd (updateModels_roots E roots td'
        (st'\<lparr>models := AList.update (toString r) mm (models st')\<rparr>)))
        = models (st'\<lparr>models := AList.update (toString r) mm (models st')\<rparr>) @ new"
      using Cons.IH by blast
    then show ?thesis
      using that q by (simp add: update_new)
  qed
  show ?case
  proof (cases "map_of (models st) (toString r) = None")
    case False
    then show ?thesis using Cons.IH [of _ st] by (auto simp: Let_def)
  next
    case True
    show ?thesis
      using True g q same more
      by (simp add: Let_def split: sum.splits option.splits)
  qed
qed

text \<open>
  Claim C9. A pass is not atomic on error. When the pass throws, it threw in
  \<^verbatim>\<open>getTempLaunchJsonContent\<close> at some root \<open>r\<close> that had no model, after the roots
  \<open>pre\<close> before it were processed without error; the model map is the one reached after
  \<open>pre\<close>, which is the map from before the pass followed by the models created for
  \<open>pre\<close>: every model registered before the pass is still there, also those whose roots
  are not in the snapshot. No model was disposed and \<^verbatim>\<open>updateCurrent\<close> was not called.
\<close>

theorem failed_pass_is_partial:
  assumes "updateModels E roots st = (Inl err, st')"
  shows "(\<exists>pre r post td1 st1 new.
            roots = pre @ r # post \<and>
            updateModels_roots E pre (keys st) st = (Inr td1, st1) \<and>
            map_of (models st1) (toString r) = None \<and>
            getTempLaunchJsonContent E st1 = (Inl err, st') \<and>
            models st' = models st1 \<and> models st1 = models st @ new)
       \<and> disposed st' = disposed st
       \<and> updateCurrentCalls st' = updateCurrentCalls st"
proof -
  have l: "updateModels_roots E roots (keys st) st = (Inl err, st')"
    using assms by (simp add: updateModels_throws)
  then obtain pre r post td1 st1 where
    p: "roots = pre @ r # post" "updateModels_roots E pre (keys st) st = (Inr td1, st1)"
       "map_of (models st1) (toString r) = None"
       "getTempLaunchJsonContent E st1 = (Inl err, st')"
    using roots_throw_split by blast
  obtain new where n: "models st1 = models st @ new"
    using roots_models_extend [of E pre "keys st" st] p(2) by auto
  have "models st' = models st1"
    using getTemp_snd(1) [OF p(4)] .
  with p n have "\<exists>pre r post td1 st1 new.
            roots = pre @ r # post \<and>
            updateModels_roots E pre (keys st) st = (Inr td1, st1) \<and>
            map_of (models st1) (toString r) = None \<and>
            getTempLaunchJsonContent E st1 = (Inl err, st') \<and>
            models st' = models st1 \<and> models st1 = models st @ new"
    by blast
  moreover have "disposed st' = disposed st" "updateCurrentCalls st' = updateCurrentCalls st"
    using roots_quiet [of E roots "keys st" st] l by simp_all
  ultimately show ?thesis by blast
qed

theorem failed_pass_is_partial_witness:
  "fst (updateModels envC9 [rootA, rootB] (snd (updateModels envC9 [rootOld] initial)))
     = Inl (OtherError ''SyntaxError'')
   \<and> keys (snd (updateModels envC9 [rootOld] initial)) = [toString rootOld]
   \<and> keys (snd (updateModels envC9 [rootA, rootB] (snd (updateModels envC9 [rootOld] initial))))
       = [toString rootOld, toString rootA]
   \<and> disposed (snd (updateModels envC9 [rootA, rootB] (snd (updateModels envC9 [rootOld] initial)))) = []
   \<and> updateCurrentCalls (snd (updateModels envC9 [rootA, rootB] (snd (updateModels envC9 [rootOld] initial))))
       = updateCurrentCalls (snd (updateModels envC9 [rootOld] initial))"
proof -
  let ?st = "snd (updateModels envC9 [rootOld] initial)"
  let ?r = "updateModels envC9 [rootA, rootB] ?st"
  have f: "fst ?r = Inl (OtherError ''SyntaxError'')"
    by code_simp
  then have h: "?r = (Inl (OtherError ''SyntaxError''), snd ?r)"
    by (metis prod.collapse)
  have k0: "keys ?st = [toString rootOld]"
    by code_simp
  have k1: "keys (snd ?r) = [toString rootOld, toString rootA]"
    by code_simp
  have d0: "disposed ?st = []"
    by code_simp
  show ?thesis
    using failed_pass_is_partial [OF h] f k0 k1 d0 by simp
qed

lemma roots_split_at:
  assumes "updateModels_roots E pre td st = (Inr td1, st1)"
  shows "updateModels_roots E (pre @ r # post) td st =
           (case updateModels_roots E [r] td1 st1 of
              (Inl err, st') \<Rightarrow> (Inl err, st')
            | (Inr td2, st2) \<Rightarrow> updateModels_roots E post td2 st2)"
    and "updateModels_roots E (pre @ [r]) td st = updateModels_roots E [r] td1 st1"
  using assms roots_append [of E pre "r # post" td st] roots_append [of E "[r]" post td1 st1]
    roots_append [of E pre "[r]" td st]
  by simp_all

text \<open>
  Claim C5. In a pass over \<open>roots = pre @ r # post\<close> that has processed \<open>pre\<close> without
  error, let \<open>r\<close> have no model, and let the read for \<open>r\<close> fail inside the \<^verbatim>\<open>try\<close> block
  (the read itself with anything but file-not-found, or the parse). Then the pass rejects
  with that error, no model is registered for \<open>r\<close>, and the model map is the one reached
  before \<open>r\<close>: no empty configuration is put in its place.
\<close>

theorem unreadable_file_rejects_pass:
  assumes "roots = pre @ r # post"
    and "updateModels_roots E pre (keys st) st = (Inr td1, st1)"
    and "map_of (models st1) (toString r) = None"
    and "currentSketch (E (invocations st1)) = Some sketch"
    and "f = getIdeTempFolderUri (E (invocations st1)) sketch"
    and "createFolder (E (invocations st1)) f = None"
    and "readAndParse (E (invocations st1)) (resolve f ''launch.json'') = Inl err"
    and "\<not> isFileNotFound err"
  shows "fst (updateModels E roots st) = Inl err
       \<and> map_of (models (snd (updateModels E roots st))) (toString r) = None
       \<and> models (snd (updateModels E roots st)) = models st1"
proof -
  have g: "fst (getTempLaunchJsonContent E st1) = Inl err"
    using assms(4-8) by (simp add: getTempLaunchJsonContent_def Let_def)
  then obtain st' where g': "getTempLaunchJsonContent E st1 = (Inl err, st')"
    by (metis prod.collapse)
  have "updateModels_roots E [r] td1 st1 = (Inl err, st')"
    using assms(3) g' by (simp add: Let_def)
  then have "updateModels_roots E roots (keys st) st = (Inl err, st')"
    using roots_split_at(1) [OF assms(2), of r post] assms(1) by simp
  then have "updateModels E roots st = (Inl err, st')"
    by (simp add: updateModels_throws)
  moreover have "models st' = models st1"
    using getTemp_snd(1) [OF g'] .
  ultimately show ?thesis
    using assms(3) by simp
qed

theorem unreadable_file_rejects_pass_witness:
  "fst (updateModels envC9 [rootOld, rootA, rootB] initial) = Inl (OtherError ''SyntaxError'')
   \<and> map_of (models (snd (updateModels envC9 [rootOld, rootA, rootB] initial))) (toString rootB)
       = None
   \<and> keys (snd (updateModels envC9 [rootOld, rootA, rootB] initial))
       = [toString rootOld, toString rootA]"
proof -
  define st1 where "st1 = snd (updateModels_roots envC9 [rootOld, rootA] (keys initial) initial)"
  have p: "updateModels_roots envC9 [rootOld, rootA] (keys initial) initial = (Inr [], st1)"
    unfolding st1_def by code_simp
  have "invocations st1 = 2"
    unfolding st1_def by code_simp
  then have i: "envC9 (invocations st1) = svMalformed"
    by (simp add: envC9_def script_def)
  have n: "map_of (models st1) (toString rootB) = None"
    unfolding st1_def by code_simp
  have k: "map fst (models st1) = [toString rootOld, toString rootA]"
    unfolding st1_def by code_simp
  have s: "currentSketch (envC9 (invocations st1)) = Some ''Blink''"
    and f: "tempDir = getIdeTempFolderUri (envC9 (invocations st1)) ''Blink''"
    and c: "createFolder (envC9 (invocations st1)) tempDir = None"
    and r: "readAndParse (envC9 (invocations st1)) (resolve tempDir ''launch.json'')
              = Inl (OtherError ''SyntaxError'')"
    and e: "\<not> isFileNotFound (OtherError ''SyntaxError'')"
    by (simp_all add: i svMalformed_def svMissing_def readAndParse_def)
  show ?thesis
    using unreadable_file_rejects_pass [OF refl p n s f c r e, of "[]"] k n
    by (simp add: keys_def)
qed

subsection \<open>A root without a file\<close>

text \<open>
  Claim C4, as stated, fails: the read for \<open>rootA\<close>, which has no model, finds no file,
  the empty model is registered for it, and the pass still throws, at the malformed file
  read for the later root \<open>rootB\<close>.
\<close>

theorem later_root_may_reject_pass:
  "map_of (models initial) (toString rootA) = None
   \<and> fst (getTempLaunchJsonContent envC4x initial) = Inr (Some (TempFolder tempDir))
   \<and> fst (updateModels envC4x [rootA, rootB] initial) = Inl (OtherError ''SyntaxError'')
   \<and> map_of (models (snd (updateModels envC4x [rootA, rootB] initial))) (toString rootA)
       = Some (emptyModel (toString rootA))"
  by code_simp

text \<open>
  Claim C4, amended. In a pass over \<open>roots = pre @ r # post\<close> that has processed \<open>pre\<close>
  without error, let \<open>r\<close> have no model, and let the read for \<open>r\<close> fail with
  file-not-found. Then the loop gets past \<open>r\<close> without error and registers for its key a
  model with no configuration entries and no file URI; that model is registered when the
  pass ends; and the pass throws exactly when the processing of the later roots \<open>post\<close>
  throws, with that error.
\<close>

theorem missing_file_gives_empty_model:
  assumes "wellFormed st"
    and "roots = pre @ r # post"
    and "updateModels_roots E pre (keys st) st = (Inr td1, st1)"
    and "map_of (models st1) (toString r) = None"
    and "currentSketch (E (invocations st1)) = Some sketch"
    and "f = getIdeTempFolderUri (E (invocations st1)) sketch"
    and "createFolder (E (invocations st1)) f = None"
    and "read (E (invocations st1)) (resolve f ''launch.json'') = Inl err"
    and "isFileNotFound err"
    and "st2 = snd (updateModels_roots E (pre @ [r]) (keys st) st)"
  shows "fst (updateModels_roots E (pre @ [r]) (keys st) st) = Inr (removeAll (toString r) td1)
       \<and> models st2 = models st1 @ [(toString r, emptyModel (toString r))]
       \<and> config (emptyModel (toString r)) = [] \<and> configUri (emptyModel (toString r)) = None
       \<and> map_of (models (snd (updateModels E roots st))) (toString r)
           = Some (emptyModel (toString r))
       \<and> fst (updateModels E roots st)
           = map_sum id (\<lambda>td. ())
               (fst (updateModels_roots E post (removeAll (toString r) td1) st2))"
proof -
  let ?key = "toString r"
  let ?td2 = "removeAll ?key td1"
  have "fst (getTempLaunchJsonContent E st1) = Inr (Some (TempFolder f))"
    using assms(5-9) by (simp add: getTempLaunchJsonContent_def readAndParse_def Let_def)
  then obtain sg where g: "getTempLaunchJsonContent E st1 = (Inr (Some (TempFolder f)), sg)"
    by (metis prod.collapse)
  have sg: "models sg = models st1"
    using getTemp_snd(1) [OF g] .
  have one: "updateModels_roots E [r] td1 st1
           = (Inr ?td2, sg\<lparr>models := models st1 @ [(?key, emptyModel ?key)]\<rparr>)"
    using assms(4) g sg by (simp add: Let_def emptyModel_def update_new)
  have upto: "updateModels_roots E (pre @ [r]) (keys st) st
            = (Inr ?td2, sg\<lparr>models := models st1 @ [(?key, emptyModel ?key)]\<rparr>)"
    using roots_split_at(2) [OF assms(3), of r] one by simp
  then have st2: "models st2 = models st1 @ [(?key, emptyModel ?key)]"
    and c1: "fst (updateModels_roots E (pre @ [r]) (keys st) st) = Inr ?td2"
    using assms(10) by simp_all
  have in2: "map_of (models st2) ?key = Some (emptyModel ?key)"
    using st2 assms(4) by (simp add: map_add_Some_iff)
  have whole: "updateModels_roots E roots (keys st) st = updateModels_roots E post ?td2 st2"
    using roots_split_at(1) [OF assms(3), of r post] one upto assms(2,10) by simp
  obtain res st3 where l: "updateModels_roots E post ?td2 st2 = (res, st3)"
    by force
  have in3: "map_of (models st3) ?key = Some (emptyModel ?key)"
    using roots_old_kept [OF in2, of E post ?td2] l by simp
  have "map_of (models (snd (updateModels E roots st))) ?key = Some (emptyModel ?key)
      \<and> fst (updateModels E roots st) = map_sum id (\<lambda>td. ()) res"
  proof (cases res)
    case (Inl e)
    then have "updateModels E roots st = (Inl e, st3)"
      using whole l by (simp add: updateModels_throws)
    then show ?thesis using in3 Inl by simp
  next
    case (Inr td3)
    then have r3: "updateModels_roots E roots (keys st) st = (Inr td3, st3)"
      using whole l by simp
    have "?key \<in> toString ` set roots"
      using assms(2) by simp
    then show ?thesis
      using updateModels_fulfils(1,2) [OF assms(1) r3] in3 Inr
      by (simp add: map_of_filter_keys)
  qed
  then show ?thesis
    using c1 st2 l by (simp add: emptyModel_def)
qed

theorem missing_file_gives_empty_model_witness:
  "fst (updateModels envC4 [rootOld, rootA, rootB] initial) = Inr ()
   \<and> map_of (models (snd (updateModels envC4 [rootOld, rootA, rootB] initial))) (toString rootA)
       = Some \<lparr> workspaceFolderUri = toString rootA, config = [], configUri = None,
                 onDidChange = 1, onDispose = [toString rootA] \<rparr>"
proof -
  define st1 where "st1 = snd (updateModels_roots envC4 [rootOld] (keys initial) initial)"
  have p: "updateModels_roots envC4 [rootOld] (keys initial) initial = (Inr [], st1)"
    unfolding st1_def by code_simp
  have "invocations st1 = 1"
    unfolding st1_def by code_simp
  then have i: "envC4 (invocations st1) = svMissing"
    by (simp add: envC4_def script_def)
  have n: "map_of (models st1) (toString rootA) = None"
    unfolding st1_def by code_simp
  have s: "currentSketch (envC4 (invocations st1)) = Some ''Blink''"
    and f: "tempDir = getIdeTempFolderUri (envC4 (invocations st1)) ''Blink''"
    and c: "createFolder (envC4 (invocations st1)) tempDir = None"
    and r: "read (envC4 (invocations st1)) (resolve tempDir ''launch.json'')
              = Inl (FileOperationError FILE_NOT_FOUND)"
    and e: "isFileNotFound (FileOperationError FILE_NOT_FOUND)"
    by (simp_all add: i svMissing_def)
  have ok: "fst (updateModels envC4 [rootOld, rootA, rootB] initial) = Inr ()"
    by code_simp
  from missing_file_gives_empty_model [OF wellFormed_initial refl p n s f c r e refl, of "[rootB]"]
  have "map_of (models (snd (updateModels envC4 ([rootOld] @ rootA # [rootB]) initial)))
          (toString rootA) = Some (emptyModel (toString rootA))"
    by blast
  then show ?thesis
    using ok by (simp add: emptyModel_def)
qed

subsection \<open>The keys after the loop\<close>

lemma resolved_Nil: "resolved E n [] = []"
  by (simp add: resolved_def)

lemma resolved_Cons:
  "resolved E n (r # rs)
     = (if currentSketch (E n) = None then [] else [toString r]) @ resolved E (Suc n) rs"
proof -
  have "[0 ..< length (r # rs)] = 0 # map Suc [0 ..< length rs]"
    by (simp add: upt_conv_Cons map_Suc_upt del: upt_Suc)
  then show ?thesis
    by (simp add: resolved_def comp_def del: upt_Suc cong: if_cong)
qed

lemma resolved_subset: "set (resolved E n news) \<subseteq> toString ` set news"
  by (induction news arbitrary: n) (auto simp: resolved_Nil resolved_Cons)

lemma newRoots_unaffected:
  assumes "toString r \<notin> toString ` set roots"
    and "models s = AList.update (toString r) mm (models st)"
  shows "newRoots s roots = newRoots st roots"
  unfolding newRoots_def
proof (rule filter_cong [OF refl])
  fix x assume "x \<in> set roots"
  then have "toString x \<noteq> toString r" using assms(1) by (metis imageI)
  then show "(map_of (models s) (toString x) = None) = (map_of (models st) (toString x) = None)"
    using assms(2) by (simp add: update_conv')
qed

lemma roots_resolved:
  assumes "distinct (map toString roots)"
    and "updateModels_roots E roots td st = (Inr td', st1)"
  shows "keys st1 = keys st @ resolved E (invocations st) (newRoots st roots)
       \<and> invocations st1 = invocations st + length (newRoots st roots)"
  using assms
proof (induction roots arbitrary: td st)
  case Nil
  then show ?case by (simp add: newRoots_def resolved_Nil)
next
  case (Cons r roots)
  let ?key = "toString r"
  let ?td = "removeAll ?key td"
  have d: "distinct (map toString roots)" and nk: "?key \<notin> toString ` set roots"
    using Cons.prems(1) by auto
  show ?case
  proof (cases "map_of (models st) ?key = None")
    case False
    then have "updateModels_roots E roots ?td st = (Inr td', st1)"
      using Cons.prems(2) by (auto simp: Let_def)
    from Cons.IH [OF d this] False show ?thesis
      by (auto simp: newRoots_def)
  next
    case True
    then have nr: "newRoots st (r # roots) = r # newRoots st roots"
      by (simp add: newRoots_def)
    obtain res s where g: "getTempLaunchJsonContent E st = (res, s)"
      by force
    note q = getTemp_snd [OF g]
    show ?thesis
    proof (cases res)
      case (Inl e)
      then show ?thesis using True g Cons.prems(2) by (simp add: Let_def)
    next
      case (Inr c)
      show ?thesis
      proof (cases c)
        case None
        then have l: "updateModels_roots E roots ?td s = (Inr td', st1)"
          using True g Inr Cons.prems(2) by (simp add: Let_def)
        have cs: "currentSketch (E (invocations st)) = None"
          using getTemp_None [of E st] g Inr None by simp
        have "newRoots s roots = newRoots st roots" "keys s = keys st"
          using q by (simp_all add: newRoots_def keys_def)
        with Cons.IH [OF d l] q nr cs show ?thesis
          by (simp add: resolved_Cons)
      next
        case (Some tc)
        then obtain mm where
          l: "updateModels_roots E roots ?td (s\<lparr>models := AList.update ?key mm (models s)\<rparr>)
                = (Inr td', st1)"
          using True g Inr Cons.prems(2) by (simp add: Let_def)
        let ?s = "s\<lparr>models := AList.update ?key mm (models s)\<rparr>"
        have cs: "currentSketch (E (invocations st)) \<noteq> None"
          using getTemp_None [of E st] g Inr Some by simp
        have "newRoots ?s roots = newRoots st roots"
          using newRoots_unaffected [OF nk, of ?s mm st] q by simp
        moreover have "keys ?s = keys st @ [?key]"
          using True q by (simp add: keys_def update_new)
        ultimately show ?thesis
          using Cons.IH [OF d l] q nr cs by (simp add: resolved_Cons)
      qed
    qed
  qed
qed

lemma roots_missing:
  assumes "updateModels_roots E roots td st = (Inr td', st1)"
    and "k \<in> toString ` set roots" and "k \<notin> set (keys st1)"
  shows "\<exists>n. invocations st \<le> n \<and> n < invocations st1 \<and> currentSketch (E n) = None"
  using assms
proof (induction roots arbitrary: td st)
  case Nil
  then show ?case by simp
next
  case (Cons r roots)
  let ?key = "toString r"
  let ?td = "removeAll ?key td"
  have gone: "map_of (models s) k = None" if "updateModels_roots E roots ?td s = (Inr td', st1)" for s
  proof (rule ccontr)
    assume "map_of (models s) k \<noteq> None"
    then obtain m where "map_of (models s) k = Some m" by auto
    then have "map_of (models st1) k = Some m"
      using roots_old_kept [of s k m E roots ?td] that by simp
    then show False using Cons.prems(3) by (simp add: in_keys_iff)
  qed
  show ?case
  proof (cases "map_of (models st) ?key = None")
    case False
    then have l: "updateModels_roots E roots ?td st = (Inr td', st1)"
      using Cons.prems(1) by (auto simp: Let_def)
    from gone [OF l] False have "k \<noteq> ?key" by auto
    then have "k \<in> toString ` set roots" using Cons.prems(2) by auto
    from Cons.IH [OF l this Cons.prems(3)] show ?thesis .
  next
    case True
    obtain res s where g: "getTempLaunchJsonContent E st = (res, s)"
      by force
    note q = getTemp_snd [OF g]
    show ?thesis
    proof (cases res)
      case (Inl e)
      then show ?thesis using True g Cons.prems(1) by (simp add: Let_def)
    next
      case (Inr c)
      show ?thesis
      proof (cases c)
        case None
        then have l: "updateModels_roots E roots ?td s = (Inr td', st1)"
          using True g Inr Cons.prems(1) by (simp add: Let_def)
        have "currentSketch (E (invocations st)) = None"
          using getTemp_None [of E st] g Inr None by simp
        moreover have "invocations st < invocations st1"
          using roots_invocations_mono [of s E roots ?td] l q by simp
        ultimately show ?thesis by blast
      next
        case (Some tc)
        then obtain mm where
          l: "updateModels_roots E roots ?td (s\<lparr>models := AList.update ?key mm (models s)\<rparr>)
                = (Inr td', st1)"
          using True g Inr Cons.prems(1) by (simp add: Let_def)
        from gone [OF l] have "k \<noteq> ?key"
          by (auto simp: update_conv')
        then have "k \<in> toString ` set roots" using Cons.prems(2) by auto
        from Cons.IH [OF l this Cons.prems(3)] q show ?thesis
          by (auto intro: Suc_leD)
      qed
    qed
  qed
qed

subsection \<open>Passes in steps\<close>

text \<open>
  A pass that is started and resumed to its end with no step of another pass in between
  is \<open>updateModels\<close> (\<open>pass_alone\<close>), and every step of every pass keeps the manager
  well-formed.
\<close>

lemma finish_ended:
  "finish n E (Fulfilled, st) = (Fulfilled, st)"
  "finish n E (Rejected err, st) = (Rejected err, st)"
  by (induction n) simp_all

lemma finish_proceed:
  "length rs \<le> m \<Longrightarrow>
   finish m E (proceed E rs td st) =
     (case updateModels_roots E rs td st of
        (Inl err, st') \<Rightarrow> (Rejected err, st')
      | (Inr td', st') \<Rightarrow>
          (Fulfilled, (updateModels_dispose td' st')
             \<lparr>updateCurrentCalls := Suc (updateCurrentCalls (updateModels_dispose td' st'))\<rparr>))"
proof (induction rs arbitrary: m td st)
  case Nil
  show ?case by (simp add: finish_ended)
next
  case (Cons r rs)
  then obtain m' where m: "m = Suc m'" and le: "length rs \<le> m'"
    by (cases m) auto
  have le': "length rs \<le> m" using le m by simp
  show ?case
  proof (cases "map_of (models st) (toString r) = None")
    case False
    then show ?thesis
      using Cons.IH [OF le', of "removeAll (toString r) td" st] by (auto simp: Let_def)
  next
    case True
    obtain res st' where g: "getTempLaunchJsonContent E st = (res, st')"
      by force
    show ?thesis
    proof (cases res)
      case (Inl err)
      then show ?thesis using True g m by (simp add: Let_def finish_ended)
    next
      case (Inr c)
      show ?thesis
      proof (cases c)
        case None
        then show ?thesis
          using True g m Inr Cons.IH [OF le, of "removeAll (toString r) td" st']
          by (simp add: Let_def)
      next
        case (Some tc)
        then show ?thesis
          using True g m Inr Cons.IH [OF le, of "removeAll (toString r) td"]
          by (simp add: Let_def)
      qed
    qed
  qed
qed

lemma pass_alone:
  "finish (length roots) E (start E roots st) =
     (case updateModels E roots st of
        (Inl err, st') \<Rightarrow> (Rejected err, st')
      | (Inr u, st') \<Rightarrow> (Fulfilled, st'))"
  using finish_proceed [of roots "length roots" E "keys st" st]
  by (simp add: start_def updateModels_def split: prod.splits sum.splits)

lemma dispose_loop_wellFormed:
  "wellFormed st \<Longrightarrow> wellFormed (updateModels_dispose td st)"
proof (induction td arbitrary: st)
  case Nil
  then show ?case by simp
next
  case (Cons k ks)
  show ?case
  proof (cases "map_of (models st) k")
    case None
    then show ?thesis using Cons by simp
  next
    case (Some m)
    then show ?thesis
      using Cons.IH [OF dispose_registered(3) [OF Cons.prems Some]] by simp
  qed
qed

lemma set_update_subset: "set (AList.update k v al) \<subseteq> insert (k, v) (set al)"
  by (induction al) auto

lemma update_wellFormed:
  assumes "wellFormed st" and "workspaceFolderUri mm = k" and "onDispose mm = [k]"
  shows "wellFormed (st\<lparr>models := AList.update k mm (models st)\<rparr>)"
proof -
  have "distinct (map fst (AList.update k mm (models st)))"
    using assms(1) by (simp add: wellFormed_def keys_def distinct_update)
  moreover have "\<forall>(k', m) \<in> set (AList.update k mm (models st)).
      workspaceFolderUri m = k' \<and> onDispose m = [k']"
    using assms set_update_subset [of k mm "models st"]
    by (auto simp: wellFormed_def)
  ultimately show ?thesis
    by (simp add: wellFormed_def keys_def)
qed

lemma proceed_wellFormed:
  "wellFormed st \<Longrightarrow> wellFormed (snd (proceed E rs td st))"
proof (induction rs arbitrary: td st)
  case Nil
  then show ?case
    using dispose_loop_wellFormed [of st td] by (simp add: wellFormed_def keys_def)
next
  case (Cons r rs)
  obtain res st' where g: "getTempLaunchJsonContent E st = (res, st')"
    by force
  have "wellFormed st'"
    using Cons.prems getTemp_snd(1) [OF g] by (simp add: wellFormed_def keys_def)
  then show ?case
    using Cons g by (simp add: Let_def)
qed

lemma resume_wellFormed:
  "wellFormed st \<Longrightarrow> wellFormed (snd (resume E p st))"
proof (cases p)
  case (Awaiting key answer rs td)
  assume w: "wellFormed st"
  show ?thesis
  proof (cases answer)
    case (Inl err)
    then show ?thesis using w Awaiting by simp
  next
    case (Inr c)
    show ?thesis
    proof (cases c)
      case None
      then show ?thesis using w Awaiting Inr proceed_wellFormed by simp
    next
      case (Some tc)
      then show ?thesis
        using Awaiting Inr proceed_wellFormed [OF update_wellFormed [OF w]]
        by (simp add: Let_def)
    qed
  qed
qed simp_all

lemma schedule_wellFormed:
  "wellFormed st \<Longrightarrow> wellFormed (snd (schedule E evs (ps, st)))"
proof (induction evs arbitrary: ps st)
  case Nil
  then show ?case by simp
next
  case (Cons ev evs)
  show ?case
  proof (cases ev)
    case (Start roots)
    obtain p st' where s: "start E roots st = (p, st')"
      by force
    then have "wellFormed st'"
      using proceed_wellFormed [OF Cons.prems, of E roots "keys st"] by (simp add: start_def)
    then show ?thesis
      using Start s Cons.IH by simp
  next
    case (Settle i)
    show ?thesis
    proof (cases "i < length ps")
      case False
      then show ?thesis using Settle Cons by simp
    next
      case True
      obtain p st' where r: "resume E (ps ! i) st = (p, st')"
        by force
      then have "wellFormed st'"
        using resume_wellFormed [OF Cons.prems, of E "ps ! i"] by simp
      then show ?thesis
        using Settle True r Cons.IH by simp
    qed
  qed
qed

subsection \<open>The keys after a pass\<close>

lemma updateModels_fulfils_roots:
  assumes "updateModels E roots st = (Inr u, st')"
  shows "\<exists>td1 st1. updateModels_roots E roots (keys st) st = (Inr td1, st1)"
  using assms by (auto simp: updateModels_def split: prod.splits sum.splits)

text \<open>
  Claim C1, as stated, fails: passes can overlap. In \<open>overlapped\<close> the pass over the
  snapshot \<open>[rootB]\<close> took \<open>toDelete\<close> and tested the map before the pass over \<open>[rootA]\<close>
  registered its model; both passes complete without error, and after the second one the
  map holds the key of \<open>rootA\<close>, which is not in its snapshot and was not disposed.
\<close>

theorem overlapping_passes_keep_stale_key:
  "fst overlapped = [Fulfilled, Fulfilled]
   \<and> keys (snd overlapped) = [toString rootA, toString rootB]
   \<and> toString rootA \<notin> toString ` set [rootB]
   \<and> disposed (snd overlapped) = []"
  by code_simp

text \<open>
  Claim C1, amended. Take the manager after any schedule of passes from the initial one,
  overlapping or not, and let one more pass over the snapshot \<open>roots\<close> run from its start
  to its end with no step of another pass in between, and complete without error. Then:
  every key of the model map is the key of a root of the snapshot; a root of the snapshot
  that already had a model keeps that very model; the models of the keys that are not in
  the snapshot are disposed, these and no others; a root of the snapshot that is left
  without a model is a newly-appearing one, and an invocation of the read during this pass
  found no valid sketch. When the roots of the snapshot have distinct keys, the keys are
  exactly the old keys that are in the snapshot followed by the keys of the
  newly-appearing roots whose invocation found a valid sketch.
\<close>

theorem reconciled_keys:
  assumes "st = snd (schedule E evs ([], initial))"
    and "finish (length roots) E (start E roots st) = (Fulfilled, st')"
  shows "set (keys st') \<subseteq> toString ` set roots
       \<and> (\<forall>k \<in> set (keys st) \<inter> toString ` set roots. map_of (models st') k = map_of (models st) k)
       \<and> disposed st' = disposed st @ filter (\<lambda>k. k \<notin> toString ` set roots) (keys st)
       \<and> (\<forall>k \<in> toString ` set roots - set (keys st').
             k \<notin> set (keys st) \<and>
             (\<exists>n. invocations st \<le> n \<and> n < invocations st' \<and> currentSketch (E n) = None))
       \<and> (distinct (map toString roots) \<longrightarrow>
             keys st' = filter (\<lambda>k. k \<in> toString ` set roots) (keys st)
                        @ resolved E (invocations st) (newRoots st roots))"
proof -
  let ?snap = "toString ` set roots"
  have w: "wellFormed st"
    using assms(1) schedule_wellFormed [OF wellFormed_initial] by simp
  have u: "updateModels E roots st = (Inr (), st')"
    using assms(2) pass_alone [of roots E st]
    by (auto split: prod.splits sum.splits)
  obtain td1 st1 where r: "updateModels_roots E roots (keys st) st = (Inr td1, st1)"
    using updateModels_fulfils_roots [OF u] by blast
  have st': "snd (updateModels E roots st) = st'"
    using u by simp
  note f = updateModels_fulfils [OF w r, unfolded st']
  have k': "keys st' = filter (\<lambda>k. k \<in> ?snap) (keys st1)"
    using f(2) by (simp add: keys_def filter_map comp_def case_prod_unfold)
  have a: "set (keys st') \<subseteq> ?snap"
    using k' by auto
  have kept: "map_of (models st') k = map_of (models st) k"
    if ks: "k \<in> set (keys st)" and sn: "k \<in> ?snap" for k
  proof -
    obtain m where m: "map_of (models st) k = Some m"
      using ks by (auto simp: in_keys_iff)
    then have "map_of (models st1) k = Some m"
      using roots_old_kept [of st k m E roots "keys st"] r by simp
    then show ?thesis
      using f(2) sn m by (simp add: map_of_filter_keys)
  qed
  have d: "\<exists>n. invocations st \<le> n \<and> n < invocations st' \<and> currentSketch (E n) = None"
    and e: "k \<notin> set (keys st)"
    if "k \<in> ?snap" "k \<notin> set (keys st')" for k
  proof -
    have n1: "k \<notin> set (keys st1)"
      using that k' by simp
    from roots_missing [OF r that(1) n1] f(5)
    show "\<exists>n. invocations st \<le> n \<and> n < invocations st' \<and> currentSketch (E n) = None"
      by simp
    show "k \<notin> set (keys st)"
    proof
      assume "k \<in> set (keys st)"
      then have "map_of (models st') k = map_of (models st) k" "map_of (models st) k \<noteq> None"
        using kept that(1) by (simp_all add: in_keys_iff)
      then show False using that(2) by (simp add: in_keys_iff)
    qed
  qed
  have x: "keys st' = filter (\<lambda>k. k \<in> ?snap) (keys st)
                      @ resolved E (invocations st) (newRoots st roots)"
    if "distinct (map toString roots)"
  proof -
    have "set (resolved E (invocations st) (newRoots st roots)) \<subseteq> ?snap"
      using resolved_subset [of E "invocations st" "newRoots st roots"]
      by (auto simp: newRoots_def)
    then have "filter (\<lambda>k. k \<in> ?snap) (resolved E (invocations st) (newRoots st roots))
             = resolved E (invocations st) (newRoots st roots)"
      by (simp add: filter_id_conv subset_eq)
    then show ?thesis
      using roots_resolved [OF that r] k' by simp
  qed
  show ?thesis
    using a kept f(3) d e x by blast
qed

theorem reconciled_keys_witness:
  "fst (finish 3 envOverlap (start envOverlap [rootB, rootOld, rootC] (snd overlapped)))
     = Fulfilled
   \<and> keys (snd overlapped) = [toString rootA, toString rootB]
   \<and> keys (snd (finish 3 envOverlap (start envOverlap [rootB, rootOld, rootC] (snd overlapped))))
       = [toString rootB, toString rootC]
   \<and> disposed (snd (finish 3 envOverlap (start envOverlap [rootB, rootOld, rootC] (snd overlapped))))
       = [toString rootA]"
proof -
  define st0 where "st0 = snd overlapped"
  define c where "c = finish 3 envOverlap (start envOverlap [rootB, rootOld, rootC] st0)"
  have r: "st0 = snd (schedule envOverlap [Start [rootA], Start [rootB], Settle 0, Settle 1]
                        ([], initial))"
    by (simp only: st0_def overlapped_def)
  have f: "fst c = Fulfilled"
    and k0: "keys st0 = [toString rootA, toString rootB]"
    and k1: "keys (snd c) = [toString rootB, toString rootC]"
    and d1: "disposed (snd c) = [toString rootA]"
    unfolding c_def st0_def by code_simp+
  have "finish (length [rootB, rootOld, rootC]) envOverlap
          (start envOverlap [rootB, rootOld, rootC] st0) = (Fulfilled, snd c)"
    using f by (simp add: c_def numeral_3_eq_3 prod_eq_iff)
  from reconciled_keys [OF r this] f k0 k1 d1 show ?thesis
    by (simp add: c_def st0_def)
qed

subsection \<open>The calls of the file service\<close>

lemma reread_fileService:
  "fileService (reread E st) = fileService st @ calls (E (invocations st))"
proof -
  obtain res st' where g: "getTempLaunchJsonContent E st = (res, st')"
    by force
  have "fileService (reread E st) = fileService st'"
    using g by (simp add: reread_def split: sum.splits option.splits tempContent.splits)
  then show ?thesis
    using getTemp_fileService [of E st] g by simp
qed

lemma listener_match:
  "\<exists>resource \<in> set changes. isTempLaunchJson tempFolderName resource \<Longrightarrow>
   onDidFilesChange E tempFolderName changes st = reread E st"
  by (induction changes) auto

lemma listener_no_match:
  "\<forall>resource \<in> set changes. \<not> isTempLaunchJson tempFolderName resource \<Longrightarrow>
   onDidFilesChange E tempFolderName changes st = st"
  by (induction changes) auto

text \<open>
  Claim C10. An invocation of \<^verbatim>\<open>getTempLaunchJsonContent\<close> that finds a valid sketch
  calls \<^verbatim>\<open>createFolder\<close> on the temp folder first and reads \<^verbatim>\<open>launch.json\<close> after it (when
  the creation did not throw); the re-read that the listener starts at a matching change
  makes the same calls, the creation of the folder included. A pass that completes over
  roots with distinct keys makes one invocation for each newly-appearing root, and the
  calls of the file service during the pass are the calls of these invocations, one
  after the other.
\<close>

theorem folder_created_at_every_read:
  assumes "sv = E (invocations st)" and "currentSketch sv = Some sketch"
    and "f = getIdeTempFolderUri sv sketch"
    and "made = CreateFolder f #
                (if createFolder sv f = None then [Read (resolve f ''launch.json'')] else [])"
  shows "fileService (snd (getTempLaunchJsonContent E st)) = fileService st @ made
       \<and> calls sv = made
       \<and> ((\<exists>resource \<in> set changes. isTempLaunchJson tempFolderName resource) \<longrightarrow>
            fileService (onDidFilesChange E tempFolderName changes st) = fileService st @ made)
       \<and> (distinct (map toString roots) \<and> updateModels E roots st = (Inr (), st') \<longrightarrow>
            invocations st' = invocations st + length (newRoots st roots) \<and>
            fileService st' = fileService st @
              concat (map (\<lambda>n. calls (E n))
                          [invocations st ..< invocations st + length (newRoots st roots)]))"
proof -
  have c: "calls sv = made"
    using assms(2-4) by (simp add: calls_def split: option.splits)
  have g: "fileService (snd (getTempLaunchJsonContent E st)) = fileService st @ made"
    using getTemp_fileService [of E st] c assms(1) by simp
  have l: "fileService (onDidFilesChange E tempFolderName changes st) = fileService st @ made"
    if "\<exists>resource \<in> set changes. isTempLaunchJson tempFolderName resource"
    using listener_match [OF that] reread_fileService [of E st] c assms(1) by simp
  have p: "invocations st' = invocations st + length (newRoots st roots) \<and>
           fileService st' = fileService st @
              concat (map (\<lambda>n. calls (E n))
                          [invocations st ..< invocations st + length (newRoots st roots)])"
    if d: "distinct (map toString roots)" and u: "updateModels E roots st = (Inr (), st')"
  proof -
    obtain td1 st1 where r: "updateModels_roots E roots (keys st) st = (Inr td1, st1)"
      using updateModels_fulfils_roots [OF u] by blast
    have "st' = (updateModels_dispose td1 st1)
              \<lparr>updateCurrentCalls := Suc (updateCurrentCalls (updateModels_dispose td1 st1))\<rparr>"
      using u r by (simp add: updateModels_def)
    then have same: "invocations st' = invocations st1" "fileService st' = fileService st1"
      using dispose_loop_quiet [of td1 st1] by simp_all
    have i: "invocations st1 = invocations st + length (newRoots st roots)"
      using roots_resolved [OF d r] by simp
    have "fileService st1 = fileService st @
            concat (map (\<lambda>n. calls (E n)) [invocations st ..< invocations st1])"
      using roots_fileService [of E roots "keys st" st] r by simp
    then show ?thesis
      using same i by simp
  qed
  show ?thesis
    using g c l p by blast
qed

theorem folder_created_at_every_read_witness:
  "fileService (snd (getTempLaunchJsonContent envC1 initial))
     = [CreateFolder tempDir, Read (resolve tempDir ''launch.json'')]
   \<and> isTempLaunchJson ''arduino-ide2-a0337d47'' changedLaunchJson
   \<and> fileService (onDidFilesChange envC1 ''arduino-ide2-a0337d47''
                     [changedOther, changedLaunchJson] initial)
       = [CreateFolder tempDir, Read (resolve tempDir ''launch.json'')]
   \<and> fst (updateModels envC1 [rootA, rootB] initial) = Inr ()
   \<and> invocations (snd (updateModels envC1 [rootA, rootB] initial)) = 2
   \<and> fileService (snd (updateModels envC1 [rootA, rootB] initial))
       = [CreateFolder tempDir, Read (resolve tempDir ''launch.json'')]"
proof -
  let ?r = "updateModels envC1 [rootA, rootB] initial"
  have f: "fst ?r = Inr ()"
    by code_simp
  then have h: "?r = (Inr (), snd ?r)"
    by (metis prod.collapse)
  have e: "envC1 0 = svPresent" "envC1 1 = svNoSketch"
    by (simp_all add: envC1_def script_def)
  have m: "isTempLaunchJson ''arduino-ide2-a0337d47'' changedLaunchJson"
    and d: "distinct (map toString [rootA, rootB])"
    and n: "newRoots initial [rootA, rootB] = [rootA, rootB]"
    and i: "invocations initial = 0" "fileService initial = []"
    by code_simp+
  have c: "calls svPresent = [CreateFolder tempDir, Read (resolve tempDir ''launch.json'')]"
    "calls svNoSketch = []"
    by (simp_all add: calls_def svPresent_def svNoSketch_def svMissing_def)
  show ?thesis
    using folder_created_at_every_read
            [of svPresent envC1 initial "''Blink''" tempDir
                "[CreateFolder tempDir, Read (resolve tempDir ''launch.json'')]"
                "[changedOther, changedLaunchJson]" "''arduino-ide2-a0337d47''"
                "[rootA, rootB]" "snd ?r"]
      f h e m d n i c
    by (simp add: svPresent_def svMissing_def upt_conv_Cons del: upt_Suc)
qed

subsection \<open>The file-change listener\<close>

lemma reread_effect:
  "invocations (reread E st) = Suc (invocations st) \<and>
   fired (reread E st) = fired st @
     (case fst (getTempLaunchJsonContent E st) of
        Inr (Some (JsonContent u cs cp)) \<Rightarrow> [JsonContent u cs cp]
      | _ \<Rightarrow> [])"
proof -
  obtain res st' where g: "getTempLaunchJsonContent E st = (res, st')"
    by force
  note q = getTemp_snd [OF g]
  show ?thesis
    using g q by (simp add: reread_def split: sum.splits option.splits tempContent.splits)
qed

lemma parent_resolve: "parent (resolve f n) = f"
  by (simp add: parent_def resolve_def)

lemma doInit_listener:
  assumes "fst (getTempLaunchJsonContent E st) = Inr (Some tc)"
    and "tc = TempFolder f \<or> tc = JsonContent (resolve f ''launch.json'') cs cp"
  shows "listener (doInit E st) = Some (toLowerCase (base f))"
proof -
  obtain st' where "getTempLaunchJsonContent E st = (Inr (Some tc), st')"
    using assms(1) by (metis prod.collapse)
  then show ?thesis
    using assms(2) by (auto simp: doInit_def parent_resolve)
qed

text \<open>
  Claim C2, as stated, fails: the notification fires only when the re-read returns a
  content. Here \<^verbatim>\<open>doInit\<close> installs the listener, a change of \<^verbatim>\<open>launch.json\<close> in the temp
  folder arrives, the re-read finds no file, and nothing is fired.
\<close>

theorem matching_change_may_fire_nothing:
  "listener (doInit (always svMissing) initial) = Some ''arduino-ide2-a0337d47''
   \<and> isTempLaunchJson ''arduino-ide2-a0337d47'' changedLaunchJson
   \<and> invocations (filesChanged (always svMissing) [changedLaunchJson]
                     (doInit (always svMissing) initial))
       = Suc (invocations (doInit (always svMissing) initial))
   \<and> fired (filesChanged (always svMissing) [changedLaunchJson]
               (doInit (always svMissing) initial)) = []"
  by code_simp

text \<open>
  Claim C2, amended. With the listener installed for \<open>tempFolderName\<close>: a batch in which
  some change is a \<^verbatim>\<open>launch.json\<close> whose parent folder has, in lower case, the name
  \<open>tempFolderName\<close> starts exactly one re-read, however many changes match; the
  notification fires once, with the content, when that re-read returns a content, and
  not at all when it returns the temp folder, \<^verbatim>\<open>undefined\<close> or throws. A batch with no
  such change leaves the manager as it is. The name that \<^verbatim>\<open>doInit\<close> installs is the name
  of the temp folder in lower case.
\<close>

theorem matching_change_rereads_once:
  assumes "listener st = Some tempFolderName"
  shows "((\<exists>resource \<in> set changes. isTempLaunchJson tempFolderName resource) \<longrightarrow>
            invocations (filesChanged E changes st) = Suc (invocations st) \<and>
            fired (filesChanged E changes st) = fired st @
              (case fst (getTempLaunchJsonContent E st) of
                 Inr (Some (JsonContent u cs cp)) \<Rightarrow> [JsonContent u cs cp]
               | _ \<Rightarrow> []))
       \<and> ((\<forall>resource \<in> set changes. \<not> isTempLaunchJson tempFolderName resource) \<longrightarrow>
            filesChanged E changes st = st)
       \<and> (isTempLaunchJson tempFolderName resource \<longleftrightarrow>
            base resource = ''launch.json'' \<and>
            toLowerCase (base (parent resource)) = tempFolderName)
       \<and> (fst (getTempLaunchJsonContent E' st0) = Inr (Some (TempFolder f)) \<or>
          fst (getTempLaunchJsonContent E' st0)
            = Inr (Some (JsonContent (resolve f ''launch.json'') cs' cp')) \<longrightarrow>
            listener (doInit E' st0) = Some (toLowerCase (base f)))"
proof -
  have fc: "filesChanged E changes st = onDidFilesChange E tempFolderName changes st"
    using assms by (simp add: filesChanged_def)
  have a: "invocations (filesChanged E changes st) = Suc (invocations st) \<and>
            fired (filesChanged E changes st) = fired st @
              (case fst (getTempLaunchJsonContent E st) of
                 Inr (Some (JsonContent u cs cp)) \<Rightarrow> [JsonContent u cs cp]
               | _ \<Rightarrow> [])"
    if "\<exists>resource \<in> set changes. isTempLaunchJson tempFolderName resource"
    using fc listener_match [OF that, of E st] reread_effect [of E st] by simp
  have b: "filesChanged E changes st = st"
    if "\<forall>resource \<in> set changes. \<not> isTempLaunchJson tempFolderName resource"
    using fc listener_no_match [OF that, of E st] by simp
  have c: "listener (doInit E' st0) = Some (toLowerCase (base f))"
    if "fst (getTempLaunchJsonContent E' st0) = Inr (Some (TempFolder f)) \<or>
        fst (getTempLaunchJsonContent E' st0)
          = Inr (Some (JsonContent (resolve f ''launch.json'') cs' cp'))"
    using that doInit_listener [of E' st0 _ f cs' cp'] by blast
  show ?thesis
    using a b c by (simp add: isTempLaunchJson_def)
qed

theorem matching_change_rereads_once_witness:
  "listener (doInit (always svPresent) initial) = Some ''arduino-ide2-a0337d47''
   \<and> isTempLaunchJson ''arduino-ide2-a0337d47'' changedLaunchJson
   \<and> invocations (filesChanged (always svPresent) [changedOther, changedLaunchJson, changedLaunchJson]
                     (doInit (always svPresent) initial)) = 2
   \<and> fired (filesChanged (always svPresent) [changedOther, changedLaunchJson, changedLaunchJson]
               (doInit (always svPresent) initial))
       = [JsonContent (resolve tempDir ''launch.json'') [DebugConfiguration ''Debug''] []]
   \<and> \<not> isTempLaunchJson ''arduino-ide2-a0337d47'' changedOther
   \<and> filesChanged (always svPresent) [changedOther] (doInit (always svPresent) initial)
       = doInit (always svPresent) initial"
proof -
  let ?st = "doInit (always svPresent) initial"
  have g: "fst (getTempLaunchJsonContent (always svPresent) initial)
         = Inr (Some (JsonContent (resolve tempDir ''launch.json'') [DebugConfiguration ''Debug''] []))"
    and g1: "fst (getTempLaunchJsonContent (always svPresent) ?st)
         = Inr (Some (JsonContent (resolve tempDir ''launch.json'') [DebugConfiguration ''Debug''] []))"
    and lc: "toLowerCase (base tempDir) = ''arduino-ide2-a0337d47''"
    and m: "isTempLaunchJson ''arduino-ide2-a0337d47'' changedLaunchJson"
    and n: "\<not> isTempLaunchJson ''arduino-ide2-a0337d47'' changedOther"
    and i: "invocations ?st = 1" and fi: "fired ?st = []"
    and l: "listener ?st = Some ''arduino-ide2-a0337d47''"
    by code_simp+
  show ?thesis
    using matching_change_rereads_once
            [OF l, of "[changedOther, changedLaunchJson, changedLaunchJson]" "always svPresent"
                _ "always svPresent" initial tempDir "[DebugConfiguration ''Debug'']" "[]"]
          matching_change_rereads_once [OF l, of "[changedOther]" "always svPresent"]
          l m n i fi g g1 lc
    by simp
qed

end
